theory Spec2Isabelle
  imports Main "HOL-Library.Word"
begin

section \<open>JavaScript strings\<close>

text \<open>
  The script \<^verbatim>\<open>script/crawl-libreoffice.js\<close> works on JavaScript strings, which are
  sequences of 16-bit code units. File contents are modelled as lists of 16-bit words, so
  that the byte-order mark U+FEFF and the line separators U+2028 and U+2029 (which the
  regular expressions of the script see) are ordinary elements. Descriptor fields, URLs
  and path segments of the static catalog are ASCII and are modelled as HOL strings;
  \<open>js\<close> embeds them into JavaScript strings.
\<close>

type_synonym jschar = "16 word"
type_synonym jsstring = "jschar list"

definition js :: "string \<Rightarrow> jsstring" where
  "js s = map of_char s"

abbreviation LF :: jschar where "LF \<equiv> 0x0A"
abbreviation CR :: jschar where "CR \<equiv> 0x0D"
abbreviation TAB :: jschar where "TAB \<equiv> 0x09"
abbreviation SP :: jschar where "SP \<equiv> 0x20"
abbreviation BOM :: jschar where "BOM \<equiv> 0xFEFF"
abbreviation LS :: jschar where "LS \<equiv> 0x2028"
abbreviation PS :: jschar where "PS \<equiv> 0x2029"

text \<open>
  ECMAScript's LineTerminator: what \<^verbatim>\<open>.\<close> refuses to match and what \<^verbatim>\<open>^\<close> and
  \<^verbatim>\<open>$\<close> look at under the \<^verbatim>\<open>m\<close> flag.
\<close>

definition isLineTerminator :: "jschar \<Rightarrow> bool" where
  "isLineTerminator c = (c = LF \<or> c = CR \<or> c = LS \<or> c = PS)"

text \<open>The character class \<^verbatim>\<open>[ \t]\<close>.\<close>

definition isBlank :: "jschar \<Rightarrow> bool" where
  "isBlank c = (c = SP \<or> c = TAB)"

text \<open>
  The assertion \<^verbatim>\<open>$\<close> under the \<^verbatim>\<open>m\<close> flag, at the position whose remaining input is
  \<open>s\<close>: the end of the input, or a line terminator comes next.
\<close>

definition atLineEnd :: "jsstring \<Rightarrow> bool" where
  "atLineEnd s = (case s of [] \<Rightarrow> True | c # _ \<Rightarrow> isLineTerminator c)"

section \<open>The content normalizer\<close>

text \<open>
  \<^verbatim>\<open>normalizeContent\<close> (lines 224-231) chains five \<^verbatim>\<open>String.prototype.replace\<close> calls.
  Each is modelled by the function that scans the input from left to right as the
  regular expression engine does: at every position the pattern is tried; on a match the
  replacement is emitted and the scan continues behind the match, otherwise the code
  unit is copied and the scan moves one position on.

  \<^verbatim>\<open>.replace(/^\uFEFF/, '')\<close>: no \<^verbatim>\<open>m\<close> flag, so \<^verbatim>\<open>^\<close> is the start of the input only;
  one leading byte-order mark is removed.
\<close>

fun stripBOM :: "jsstring \<Rightarrow> jsstring" where
  "stripBOM [] = []"
| "stripBOM (c # cs) = (if c = BOM then cs else c # cs)"

text \<open>\<^verbatim>\<open>.replace(/\r\n/g, '\n')\<close>: every CR LF pair, leftmost first, becomes LF.\<close>

fun crlfToLf :: "jsstring \<Rightarrow> jsstring" where
  "crlfToLf (c # d # cs) =
     (if c = CR \<and> d = LF then LF # crlfToLf cs else c # crlfToLf (d # cs))"
| "crlfToLf cs = cs"

text \<open>\<^verbatim>\<open>.replace(/\r/g, '\n')\<close>: every remaining CR becomes LF.\<close>

fun crToLf :: "jsstring \<Rightarrow> jsstring" where
  "crToLf [] = []"
| "crToLf (c # cs) = (if c = CR then LF # crToLf cs else c # crToLf cs)"

text \<open>
  \<^verbatim>\<open>.replace(/[ \t]+$/gm, '')\<close>: at a blank, the greedy \<^verbatim>\<open>[ \t]+\<close> takes the whole run of
  blanks from there, and \<^verbatim>\<open>$\<close> must hold behind it (backtracking to a shorter run
  leaves a blank next, where \<^verbatim>\<open>$\<close> fails). On a match the run is deleted and the scan
  continues behind it; otherwise the blank is copied.
\<close>

function trimLines :: "jsstring \<Rightarrow> jsstring" where
  "trimLines [] = []"
| "trimLines (c # cs) =
     (if isBlank c \<and> atLineEnd (dropWhile isBlank cs)
      then trimLines (dropWhile isBlank cs)
      else c # trimLines cs)"
  by pat_completeness auto
termination
  by (relation "measure length") (auto intro: le_imp_less_Suc length_dropWhile_le)

text \<open>
  \<^verbatim>\<open>.replace(/\n*$/, '\n')\<close>: neither \<^verbatim>\<open>g\<close> nor \<^verbatim>\<open>m\<close>, so \<^verbatim>\<open>$\<close> is the end of the
  input and only the first match is replaced. At a position the greedy \<^verbatim>\<open>\n*\<close> takes
  the run of linefeeds from there, and the match succeeds when that run reaches the end of
  the input, which is the case exactly when everything that is left is linefeeds (the
  empty rest included). That match reaches the end, so nothing follows the replacement.
\<close>

fun finalNewline :: "jsstring \<Rightarrow> jsstring" where
  "finalNewline [] = [LF]"
| "finalNewline (c # cs) =
     (if list_all (\<lambda>d. d = LF) (c # cs) then [LF] else c # finalNewline cs)"

definition normalizeContent :: "jsstring \<Rightarrow> jsstring" where
  "normalizeContent content =
     finalNewline (trimLines (crToLf (crlfToLf (stripBOM content))))"

section \<open>The rewrite of the SET pragma\<close>

text \<open>
  Line 281: \<^verbatim>\<open>content.replace(/^SET .*/m, 'SET UTF-8')\<close>. Under the \<^verbatim>\<open>m\<close> flag \<^verbatim>\<open>^\<close>
  holds at the start of the input and behind every line terminator; \<^verbatim>\<open>.*\<close> takes
  every code unit up to the next line terminator. Without the \<^verbatim>\<open>g\<close> flag only the first
  match is replaced.

  \<open>matchSetAt s\<close> tries the pattern at a position where \<^verbatim>\<open>^\<close> holds and whose remaining
  input is \<open>s\<close>: the matched text and what follows it.
\<close>

definition matchSetAt :: "jsstring \<Rightarrow> (jsstring \<times> jsstring) option" where
  "matchSetAt s =
     (if take 4 s = js ''SET ''
      then Some (take 4 s @ takeWhile (\<lambda>c. \<not> isLineTerminator c) (drop 4 s),
                 dropWhile (\<lambda>c. \<not> isLineTerminator c) (drop 4 s))
      else None)"

text \<open>
  \<open>searchSet bol s\<close> is the search for the first match in the remaining input \<open>s\<close>;
  \<open>bol\<close> tells whether \<^verbatim>\<open>^\<close> holds at the current position. The result is the text
  before the match, the match and the text behind it.
\<close>

fun searchSet :: "bool \<Rightarrow> jsstring \<Rightarrow> (jsstring \<times> jsstring \<times> jsstring) option" where
  "searchSet bol [] = None"
| "searchSet bol (c # cs) =
     (case (if bol then matchSetAt (c # cs) else None) of
        Some (m, rest) \<Rightarrow> Some ([], m, rest)
      | None \<Rightarrow>
          (case searchSet (isLineTerminator c) cs of
             None \<Rightarrow> None
           | Some (pre, m, rest) \<Rightarrow> Some (c # pre, m, rest)))"

definition replaceSetFrom :: "bool \<Rightarrow> jsstring \<Rightarrow> jsstring" where
  "replaceSetFrom bol s =
     (case searchSet bol s of
        None \<Rightarrow> s
      | Some (pre, m, rest) \<Rightarrow> pre @ js ''SET UTF-8'' @ rest)"

definition replaceSet :: "jsstring \<Rightarrow> jsstring" where
  "replaceSet content = replaceSetFrom True content"

text \<open>
  What lines 279-283 write to \<^verbatim>\<open>index.aff\<close> for a fetched text: the pragma is rewritten
  first, the result is normalized.
\<close>

definition affContent :: "jsstring \<Rightarrow> jsstring" where
  "affContent content = normalizeContent (replaceSet content)"

section \<open>The catalog\<close>

text \<open>
  One entry of \<^verbatim>\<open>LIBREOFFICE_DICTIONARIES\<close> (lines 17-214). \<^verbatim>\<open>dicPath\<close> and
  \<^verbatim>\<open>affPath\<close> are optional properties: \<open>None\<close> is JavaScript's \<^verbatim>\<open>undefined\<close>.
\<close>

record descriptor =
  code :: string
  folder :: string
  name :: string
  license :: string
  licenseFile :: string
  dicPath :: "string option"
  affPath :: "string option"

definition LIBREOFFICE_DICTIONARIES :: "descriptor list" where
  "LIBREOFFICE_DICTIONARIES =
     [\<lparr>code = ''af'', folder = ''af_ZA'', name = ''Afrikaans'',
      license = ''LGPL-3.0'', licenseFile = ''README_af_ZA.txt'',
      dicPath = None, affPath = None\<rparr>,
      \<lparr>code = ''an'', folder = ''an_ES'', name = ''Aragonese'',
      license = ''GPL-3.0'', licenseFile = ''LICENSES-en.txt'',
      dicPath = None, affPath = None\<rparr>,
      \<lparr>code = ''ar'', folder = ''ar'', name = ''Arabic'',
      license = ''GPL-3.0'', licenseFile = ''COPYING.txt'',
      dicPath = None, affPath = None\<rparr>,
      \<lparr>code = ''as'', folder = ''as_IN'', name = ''Assamese'',
      license = ''GPL-2.0'', licenseFile = ''COPYING'',
      dicPath = None, affPath = None\<rparr>,
      \<lparr>code = ''be'', folder = ''be_BY'', name = ''Belarusian'',
      license = ''GPL-3.0'', licenseFile = ''README_be_BY.txt'',
      dicPath = Some ''be-official.dic'', affPath = Some ''be-official.aff''\<rparr>,
      \<lparr>code = ''bn'', folder = ''bn_BD'', name = ''Bengali'',
      license = ''GPL-2.0'', licenseFile = ''COPYING'',
      dicPath = None, affPath = None\<rparr>,
      \<lparr>code = ''bo'', folder = ''bo'', name = ''Tibetan'',
      license = ''GPL-3.0'', licenseFile = ''LICENSE-en.txt'',
      dicPath = None, affPath = None\<rparr>,
      \<lparr>code = ''bs'', folder = ''bs_BA'', name = ''Bosnian'',
      license = ''GPL-3.0'', licenseFile = ''registration/LICENSE'',
      dicPath = None, affPath = None\<rparr>,
      \<lparr>code = ''ckb'', folder = ''ckb'', name = ''Central Kurdish'',
      license = ''GPL-3.0'', licenseFile = ''LICENSES-en.txt'',
      dicPath = Some ''dictionaries/ckb.dic'', affPath = Some ''dictionaries/ckb.aff''\<rparr>,
      \<lparr>code = ''gu'', folder = ''gu_IN'', name = ''Gujarati'',
      license = ''GPL-3.0'', licenseFile = ''COPYING'',
      dicPath = None, affPath = None\<rparr>,
      \<lparr>code = ''gug'', folder = ''gug'', name = ''Guarani'',
      license = ''GPL-3.0'', licenseFile = ''LICENSE.txt'',
      dicPath = None, affPath = None\<rparr>,
      \<lparr>code = ''hi'', folder = ''hi_IN'', name = ''Hindi'',
      license = ''GPL-2.0'', licenseFile = ''COPYING'',
      dicPath = None, affPath = None\<rparr>,
      \<lparr>code = ''id'', folder = ''id'', name = ''Indonesian'',
      license = ''GPL-3.0'', licenseFile = ''LICENSE-dict'',
      dicPath = Some ''id_ID.dic'', affPath = Some ''id_ID.aff''\<rparr>,
      \<lparr>code = ''it'', folder = ''it_IT'', name = ''Italian'',
      license = ''GPL-3.0'', licenseFile = ''README_it_IT.txt'',
      dicPath = None, affPath = None\<rparr>,
      \<lparr>code = ''kn'', folder = ''kn_IN'', name = ''Kannada'',
      license = ''GPL-3.0'', licenseFile = ''COPYING'',
      dicPath = None, affPath = None\<rparr>,
      \<lparr>code = ''kmr-Latn'', folder = ''kmr_Latn'', name = ''Kurmanji'',
      license = ''GPL-3.0'', licenseFile = ''gpl-3.0.txt'',
      dicPath = None, affPath = None\<rparr>,
      \<lparr>code = ''lo'', folder = ''lo_LA'', name = ''Lao'',
      license = ''GPL-3.0'', licenseFile = ''README_lo_LA.txt'',
      dicPath = None, affPath = None\<rparr>,
      \<lparr>code = ''mr'', folder = ''mr_IN'', name = ''Marathi'',
      license = ''LGPL-3.0'', licenseFile = ''README_mr_IN.txt'',
      dicPath = None, affPath = None\<rparr>,
      \<lparr>code = ''or'', folder = ''or_IN'', name = ''Odia'',
      license = ''GPL-2.0'', licenseFile = ''COPYING'',
      dicPath = None, affPath = None\<rparr>,
      \<lparr>code = ''pa'', folder = ''pa_IN'', name = ''Punjabi'',
      license = ''GPL-2.0'', licenseFile = ''COPYING'',
      dicPath = None, affPath = None\<rparr>,
      \<lparr>code = ''sa'', folder = ''sa_IN'', name = ''Sanskrit'',
      license = ''GPL-3.0'', licenseFile = ''COPYING'',
      dicPath = None, affPath = None\<rparr>,
      \<lparr>code = ''si'', folder = ''si_LK'', name = ''Sinhala'',
      license = ''GPL-3.0'', licenseFile = ''COPYING'',
      dicPath = None, affPath = None\<rparr>,
      \<lparr>code = ''sq'', folder = ''sq_AL'', name = ''Albanian'',
      license = ''GPL-3.0'', licenseFile = ''README_sq_AL.txt'',
      dicPath = None, affPath = None\<rparr>,
      \<lparr>code = ''sw'', folder = ''sw_TZ'', name = ''Swahili'',
      license = ''LGPL-3.0'', licenseFile = ''README_sw_TZ.txt'',
      dicPath = None, affPath = None\<rparr>,
      \<lparr>code = ''ta'', folder = ''ta_IN'', name = ''Tamil'',
      license = ''GPL-3.0'', licenseFile = ''COPYING'',
      dicPath = None, affPath = None\<rparr>,
      \<lparr>code = ''te'', folder = ''te_IN'', name = ''Telugu'',
      license = ''GPL-2.0'', licenseFile = ''COPYING'',
      dicPath = None, affPath = None\<rparr>,
      \<lparr>code = ''th'', folder = ''th_TH'', name = ''Thai'',
      license = ''LGPL-2.1'', licenseFile = ''README_th_TH.txt'',
      dicPath = None, affPath = None\<rparr>]"

definition LIBREOFFICE_BASE_URL :: string where
  "LIBREOFFICE_BASE_URL = ''https://raw.githubusercontent.com/LibreOffice/dictionaries/master''"

text \<open>
  A path is the list of its segments, read from the root of the repository: the script
  lies in \<^verbatim>\<open>script\<close>, so \<^verbatim>\<open>path.join(__dirname, '..', 'dictionaries')\<close> is the
  directory \<^verbatim>\<open>dictionaries\<close>. A leading \<^verbatim>\<open>..\<close> stands for the directory above the
  repository, which is taken to lie deep enough that no path climbs past the root of the
  file system.
\<close>

type_synonym path = "string list"

definition DICTIONARIES_DIR :: path where
  "DICTIONARIES_DIR = [''dictionaries'']"

text \<open>
  \<^verbatim>\<open>path.join\<close> (POSIX) joins its arguments with a slash and normalizes the result:
  the text is cut at every slash, empty segments and \<^verbatim>\<open>.\<close> are dropped, and \<^verbatim>\<open>..\<close>
  removes the segment before it (and stays where there is none to remove).
  \<open>splitSlash\<close> is the cut, \<open>normalizeSegments dir ss\<close> walks the segments \<open>ss\<close> from the
  normalized directory \<open>dir\<close>.
\<close>

fun splitSlash :: "string \<Rightarrow> string list" where
  "splitSlash [] = [[]]"
| "splitSlash (c # cs) =
     (if c = CHR ''/'' then [] # splitSlash cs
      else (case splitSlash cs of [] \<Rightarrow> [[c]] | s # ss \<Rightarrow> (c # s) # ss))"

fun normalizeSegments :: "path \<Rightarrow> string list \<Rightarrow> path" where
  "normalizeSegments dir [] = dir"
| "normalizeSegments dir (s # ss) =
     (if s = [] \<or> s = ''.'' then normalizeSegments dir ss
      else if s = ''..'' then
        (if dir = [] \<or> last dir = ''..'' then normalizeSegments (dir @ [''..'']) ss
         else normalizeSegments (butlast dir) ss)
      else normalizeSegments (dir @ [s]) ss)"

definition pathJoin :: "path \<Rightarrow> string \<Rightarrow> path" where
  "pathJoin dir s = normalizeSegments dir (splitSlash s)"

text \<open>Line 238: \<^verbatim>\<open>path.join(DICTIONARIES_DIR, dict.code)\<close>.\<close>

definition destDir :: "descriptor \<Rightarrow> path" where
  "destDir dict = pathJoin DICTIONARIES_DIR (code dict)"

text \<open>
  \<^verbatim>\<open>a || b\<close> on an optional string: \<^verbatim>\<open>undefined\<close> and the empty string are falsy.
\<close>

definition orElse :: "string option \<Rightarrow> string \<Rightarrow> string" where
  "orElse a b = (case a of None \<Rightarrow> b | Some s \<Rightarrow> if s = [] then b else s)"

text \<open>\<^verbatim>\<open>folder.includes('_')\<close>, for the one-character search string.\<close>

definition includesChar :: "string \<Rightarrow> char \<Rightarrow> bool" where
  "includesChar s c = (c \<in> set s)"

text \<open>Lines 251-255, with the conditional as the source writes it.\<close>

definition dicFile :: "descriptor \<Rightarrow> string" where
  "dicFile dict =
     orElse (dicPath dict)
       ((if includesChar (folder dict) CHR ''_'' then folder dict else folder dict) @ ''.dic'')"

definition affFile :: "descriptor \<Rightarrow> string" where
  "affFile dict =
     orElse (affPath dict)
       ((if includesChar (folder dict) CHR ''_'' then folder dict else folder dict) @ ''.aff'')"

text \<open>Lines 258, 274 and 304: the three remote locations.\<close>

definition dicUrl :: "descriptor \<Rightarrow> string" where
  "dicUrl dict = LIBREOFFICE_BASE_URL @ ''/'' @ folder dict @ ''/'' @ dicFile dict"

definition affUrl :: "descriptor \<Rightarrow> string" where
  "affUrl dict = LIBREOFFICE_BASE_URL @ ''/'' @ folder dict @ ''/'' @ affFile dict"

definition licenseUrl :: "descriptor \<Rightarrow> string" where
  "licenseUrl dict = LIBREOFFICE_BASE_URL @ ''/'' @ folder dict @ ''/'' @ licenseFile dict"

text \<open>
  The derivation rule in the specification's words: the folder with the extension
  appended, unconditionally.
\<close>

definition defaultFileName_spec :: "string \<Rightarrow> string \<Rightarrow> string" where
  "defaultFileName_spec sourceFolder ext = sourceFolder @ ext"

section \<open>The world: file system, network and console\<close>

text \<open>
  An exception is either the \<^verbatim>\<open>new Error(`HTTP ${response.status}`)\<close> of lines 262
  and 278, or a failure raised by the runtime (a rejected \<^verbatim>\<open>fetch\<close>, \<^verbatim>\<open>text()\<close>,
  \<^verbatim>\<open>mkdir\<close> or \<^verbatim>\<open>writeFile\<close>) with its message.
\<close>

datatype exn = HttpError nat | Failure string

text \<open>
  A response of \<^verbatim>\<open>fetch\<close>: its status and what \<^verbatim>\<open>text()\<close> resolves or rejects to.
  \<^verbatim>\<open>response.ok\<close> is true for a status from 200 to 299.
\<close>

datatype response = Response (status: nat) (text_of: "exn + jsstring")

definition ok :: "response \<Rightarrow> bool" where
  "ok r = (200 \<le> status r \<and> status r \<le> 299)"

text \<open>
  The environment the script cannot control: what the network answers for a URL, and
  which file-system calls fail.
\<close>

record env =
  net :: "string \<Rightarrow> exn + response"
  mkdirFault :: "path \<Rightarrow> exn option"
  writeFault :: "path \<Rightarrow> exn option"

text \<open>The lines the script prints, one constructor for each \<^verbatim>\<open>console.log\<close>.\<close>

datatype logLine =
    LogAlreadyExists string string
  | LogProcessing string string
  | LogWritten string
  | LogDicFailed exn
  | LogAffFailed exn
  | LogNoLicense
  | LogDone string string
  | LogFailed string exn
  | LogBannerTop
  | LogBannerTitle
  | LogBannerBottom
  | LogBlank
  | LogAdding nat
  | LogFinished

text \<open>Every call that reaches outside the process, in the order it is made.\<close>

datatype effect =
    ExistsSync path
  | Mkdir path
  | Fetch string
  | WriteFile path jsstring
  | ConsoleLog logLine

record world =
  files :: "path \<rightharpoonup> jsstring"
  dirs :: "path set"
  trace :: "effect list"

definition emit :: "effect \<Rightarrow> world \<Rightarrow> world" where
  "emit ev w = w\<lparr>trace := trace w @ [ev]\<rparr>"

definition consoleLog :: "logLine \<Rightarrow> world \<Rightarrow> world" where
  "consoleLog l w = emit (ConsoleLog l) w"

definition existsSync :: "path \<Rightarrow> world \<Rightarrow> bool \<times> world" where
  "existsSync p w = (files w p \<noteq> None \<or> p \<in> dirs w, emit (ExistsSync p) w)"

text \<open>
  \<^verbatim>\<open>fs.mkdir(p, {recursive: true})\<close> creates the directory and the ancestors it lacks:
  \<open>dirChain pre p\<close> lists \<open>pre\<close> extended by one, two, ... segments of \<open>p\<close>.
\<close>

fun dirChain :: "path \<Rightarrow> path \<Rightarrow> path list" where
  "dirChain pre [] = []"
| "dirChain pre (s # ss) = (pre @ [s]) # dirChain (pre @ [s]) ss"

definition mkdir :: "env \<Rightarrow> path \<Rightarrow> world \<Rightarrow> (exn + unit) \<times> world" where
  "mkdir e p w =
     (case mkdirFault e p of
        Some x \<Rightarrow> (Inl x, emit (Mkdir p) w)
      | None \<Rightarrow> (Inr (), emit (Mkdir p) (w\<lparr>dirs := dirs w \<union> set (dirChain [] p)\<rparr>)))"

definition fetch :: "env \<Rightarrow> string \<Rightarrow> world \<Rightarrow> (exn + response) \<times> world" where
  "fetch e u w = (net e u, emit (Fetch u) w)"

text \<open>A write that fails leaves the file as it was.\<close>

definition writeFile :: "env \<Rightarrow> path \<Rightarrow> jsstring \<Rightarrow> world \<Rightarrow> (exn + unit) \<times> world" where
  "writeFile e p content w =
     (case writeFault e p of
        Some x \<Rightarrow> (Inl x, emit (WriteFile p content) w)
      | None \<Rightarrow> (Inr (), emit (WriteFile p content) (w\<lparr>files := (files w)(p \<mapsto> content)\<rparr>)))"

section \<open>The acquirer\<close>

text \<open>
  The bodies of the three \<^verbatim>\<open>try\<close> blocks of \<^verbatim>\<open>processDictionary\<close>. A result
  \<open>Inl x\<close> is the exception \<open>x\<close> leaving the block, to be handled by its \<^verbatim>\<open>catch\<close>.

  Lines 261-266.
\<close>

definition downloadDic :: "env \<Rightarrow> descriptor \<Rightarrow> world \<Rightarrow> (exn + unit) \<times> world" where
  "downloadDic e dict w =
     (case fetch e (dicUrl dict) w of
        (Inl x, w1) \<Rightarrow> (Inl x, w1)
      | (Inr response, w1) \<Rightarrow>
          if \<not> ok response then (Inl (HttpError (status response)), w1)
          else
            (case text_of response of
               Inl x \<Rightarrow> (Inl x, w1)
             | Inr content \<Rightarrow>
                 (case writeFile e (pathJoin (destDir dict) ''index.dic'') (normalizeContent content) w1 of
                    (Inl x, w2) \<Rightarrow> (Inl x, w2)
                  | (Inr u, w2) \<Rightarrow> (Inr (), consoleLog (LogWritten ''index.dic'') w2))))"

text \<open>Lines 277-284.\<close>

definition downloadAff :: "env \<Rightarrow> descriptor \<Rightarrow> world \<Rightarrow> (exn + unit) \<times> world" where
  "downloadAff e dict w =
     (case fetch e (affUrl dict) w of
        (Inl x, w1) \<Rightarrow> (Inl x, w1)
      | (Inr response, w1) \<Rightarrow>
          if \<not> ok response then (Inl (HttpError (status response)), w1)
          else
            (case text_of response of
               Inl x \<Rightarrow> (Inl x, w1)
             | Inr content \<Rightarrow>
                 (case writeFile e (pathJoin (destDir dict) ''index.aff'') (affContent content) w1 of
                    (Inl x, w2) \<Rightarrow> (Inl x, w2)
                  | (Inr u, w2) \<Rightarrow> (Inr (), consoleLog (LogWritten ''index.aff'') w2))))"

text \<open>Lines 306-312: a response that is not ok is passed over in silence.\<close>

definition downloadLicense :: "env \<Rightarrow> descriptor \<Rightarrow> world \<Rightarrow> (exn + unit) \<times> world" where
  "downloadLicense e dict w =
     (case fetch e (licenseUrl dict) w of
        (Inl x, w1) \<Rightarrow> (Inl x, w1)
      | (Inr response, w1) \<Rightarrow>
          if ok response then
            (case text_of response of
               Inl x \<Rightarrow> (Inl x, w1)
             | Inr content \<Rightarrow>
                 (case writeFile e (pathJoin (destDir dict) ''license'') (normalizeContent content) w1 of
                    (Inl x, w2) \<Rightarrow> (Inl x, w2)
                  | (Inr u, w2) \<Rightarrow> (Inr (), consoleLog (LogWritten ''license'') w2)))
          else (Inr (), w1))"

text \<open>Lines 291-317: what follows the two required downloads.\<close>

definition writeStamps :: "env \<Rightarrow> descriptor \<Rightarrow> world \<Rightarrow> (exn + unit) \<times> world" where
  "writeStamps e dict w =
     (case writeFile e (pathJoin (destDir dict) ''.spdx'') (js (license dict) @ [LF]) w of
        (Inl x, w1) \<Rightarrow> (Inl x, w1)
      | (Inr u, w1) \<Rightarrow>
          (case writeFile e (pathJoin (destDir dict) ''.source'')
                  (js ''https://github.com/LibreOffice/dictionaries'' @ [LF])
                  (consoleLog (LogWritten ''.spdx'') w1) of
             (Inl x, w2) \<Rightarrow> (Inl x, w2)
           | (Inr u, w2) \<Rightarrow>
               (case downloadLicense e dict (consoleLog (LogWritten ''.source'') w2) of
                  (Inl x, w3) \<Rightarrow>
                    (Inr (), consoleLog (LogDone (code dict) (name dict)) (consoleLog LogNoLicense w3))
                | (Inr u, w3) \<Rightarrow>
                    (Inr (), consoleLog (LogDone (code dict) (name dict)) w3))))"

text \<open>Lines 246-289: the directory and the two required downloads, each with its \<^verbatim>\<open>catch\<close>.\<close>

definition acquireArtifacts :: "env \<Rightarrow> descriptor \<Rightarrow> world \<Rightarrow> (exn + unit) \<times> world" where
  "acquireArtifacts e dict w =
     (case mkdir e (destDir dict) (consoleLog (LogProcessing (code dict) (name dict)) w) of
        (Inl x, w2) \<Rightarrow> (Inl x, w2)
      | (Inr u, w2) \<Rightarrow>
          (case downloadDic e dict w2 of
             (Inl error, w3) \<Rightarrow> (Inr (), consoleLog (LogDicFailed error) w3)
           | (Inr u, w3) \<Rightarrow>
               (case downloadAff e dict w3 of
                  (Inl error, w4) \<Rightarrow> (Inr (), consoleLog (LogAffFailed error) w4)
                | (Inr u, w4) \<Rightarrow> writeStamps e dict w4)))"

text \<open>
  \<^verbatim>\<open>processDictionary\<close> (lines 237-318). \<open>Inl x\<close> is an exception that leaves the
  function (a rejected promise); \<open>Inr ()\<close> is a normal return.
\<close>

definition processDictionary :: "env \<Rightarrow> descriptor \<Rightarrow> world \<Rightarrow> (exn + unit) \<times> world" where
  "processDictionary e dict w =
     (case existsSync (pathJoin (destDir dict) ''index.dic'') w of
        (True, w1) \<Rightarrow> (Inr (), consoleLog (LogAlreadyExists (code dict) (name dict)) w1)
      | (False, w1) \<Rightarrow> acquireArtifacts e dict w1)"

section \<open>The batch orchestrator\<close>

text \<open>The body of the loop of \<^verbatim>\<open>main\<close> (lines 340-345): the call and its \<^verbatim>\<open>catch\<close>.\<close>

definition processGuarded :: "env \<Rightarrow> descriptor \<Rightarrow> world \<Rightarrow> world" where
  "processGuarded e dict w =
     (case processDictionary e dict w of
        (Inl error, w1) \<Rightarrow> consoleLog (LogFailed (code dict) error) w1
      | (Inr u, w1) \<Rightarrow> w1)"

text \<open>The \<^verbatim>\<open>for ... of\<close> loop (lines 339-346).\<close>

fun processAll :: "env \<Rightarrow> descriptor list \<Rightarrow> world \<Rightarrow> world" where
  "processAll e [] w = w"
| "processAll e (dict # rest) w = processAll e rest (processGuarded e dict w)"


section \<open>Notions used in the statements\<close>

text \<open>Steps two to five of \<^verbatim>\<open>normalizeContent\<close>, behind the removal of the mark.\<close>

definition normalizeBody :: "jsstring \<Rightarrow> jsstring" where
  "normalizeBody s = finalNewline (trimLines (crToLf (crlfToLf s)))"

text \<open>Steps two to four: line terminators unified, trailing blanks removed.\<close>

definition normalizeLines :: "jsstring \<Rightarrow> jsstring" where
  "normalizeLines s = trimLines (crToLf (crlfToLf s))"

fun startsWithBOM :: "jsstring \<Rightarrow> bool" where
  "startsWithBOM [] = False"
| "startsWithBOM (c # cs) = (c = BOM)"

text \<open>No blank stands at the end of the text or right before a line terminator.\<close>

fun tidy :: "jsstring \<Rightarrow> bool" where
  "tidy [] = True"
| "tidy (c # cs) = ((isBlank c \<longrightarrow> \<not> atLineEnd cs) \<and> tidy cs)"

text \<open>A text without the blanks at its end.\<close>

definition rstrip :: "jsstring \<Rightarrow> jsstring" where
  "rstrip s = rev (dropWhile isBlank (rev s))"

text \<open>
  The position behind the text \<open>a\<close> is the start of a line: \<open>a\<close> ends with a line
  terminator, or \<open>a\<close> is empty and \<open>bol\<close> says so (\<open>True\<close> at the start of the input).
\<close>

definition lineStart :: "bool \<Rightarrow> jsstring \<Rightarrow> bool" where
  "lineStart bol a = (if a = [] then bol else isLineTerminator (last a))"

text \<open>
  A fetch that answers a status outside 200-299, or that throws: for the word list and for
  the license text.
\<close>

definition dicFetchFails :: "env \<Rightarrow> descriptor \<Rightarrow> bool" where
  "dicFetchFails e dict =
     (case net e (dicUrl dict) of Inl x \<Rightarrow> True | Inr r \<Rightarrow> \<not> ok r)"

definition licenseFetchFails :: "env \<Rightarrow> descriptor \<Rightarrow> bool" where
  "licenseFetchFails e dict =
     (case net e (licenseUrl dict) of Inl x \<Rightarrow> True | Inr r \<Rightarrow> \<not> ok r)"

text \<open>
  The descriptor of the specification's example, for a code \<open>c\<close>: folder \<open>c_YY\<close>, no
  overrides. And the world before anything has happened.
\<close>

definition exampleDescriptor :: "string \<Rightarrow> descriptor" where
  "exampleDescriptor c =
     \<lparr>code = c, folder = c @ ''_YY'', name = ''Example'', license = ''GPL-3.0'',
      licenseFile = ''COPYING'', dicPath = None, affPath = None\<rparr>"

definition emptyWorld :: world where
  "emptyWorld = \<lparr>files = Map.empty, dirs = {}, trace = []\<rparr>"

text \<open>
  A server that has the word list and the affix file of the example descriptor \<open>xx\<close>
  (both the text \<^verbatim>\<open>SET ISO8859-1\<close> and a CR LF) and answers 404 for its license
  text; the file system does not fail.
\<close>

definition licenseMissingEnv :: env where
  "licenseMissingEnv =
     \<lparr>net = (\<lambda>u. if u = licenseUrl (exampleDescriptor ''xx'')
                  then Inr (Response 404 (Inr []))
                  else Inr (Response 200 (Inr (js ''SET ISO8859-1'' @ [CR, LF])))),
      mkdirFault = (\<lambda>p. None), writeFault = (\<lambda>p. None)\<rparr>"

text \<open>A server that answers 404 for everything; the file system does not fail.\<close>

definition notFoundEnv :: env where
  "notFoundEnv =
     \<lparr>net = (\<lambda>u. Inr (Response 404 (Inr []))), mkdirFault = (\<lambda>p. None),
      writeFault = (\<lambda>p. None)\<rparr>"


definition present :: "descriptor \<Rightarrow> world \<Rightarrow> bool" where
  "present d w =
     (files w (destDir d @ [''index.dic'']) \<noteq> None \<or> destDir d @ [''index.dic''] \<in> dirs w)"






text \<open>
  The run reaches the write of \<^verbatim>\<open>index.aff\<close> with the fetched text \<open>content\<close>: nothing
  exists at \<^verbatim>\<open>index.dic\<close>, the directory can be created, the word list is fetched and
  written, and the fetch of the affix file answers \<open>content\<close>, which can be written.
\<close>

definition affFetched :: "env \<Rightarrow> descriptor \<Rightarrow> world \<Rightarrow> jsstring \<Rightarrow> bool" where
  "affFetched e dict w content =
     (\<not> present dict w \<and> mkdirFault e (destDir dict) = None \<and>
      writeFault e (destDir dict @ [''index.dic'']) = None \<and>
      writeFault e (destDir dict @ [''index.aff'']) = None \<and>
      (case net e (dicUrl dict) of
         Inl x \<Rightarrow> False
       | Inr r \<Rightarrow> ok r \<and> (case text_of r of Inl x \<Rightarrow> False | Inr c \<Rightarrow> True)) \<and>
      (case net e (affUrl dict) of
         Inl x \<Rightarrow> False
       | Inr r \<Rightarrow> ok r \<and> text_of r = Inr content))"

text \<open>A server that answers every request with the text \<open>content\<close>; the file system does not fail.\<close>

definition servingEnv :: "jsstring \<Rightarrow> env" where
  "servingEnv content =
     \<lparr>net = (\<lambda>u. Inr (Response 200 (Inr content))), mkdirFault = (\<lambda>p. None),
      writeFault = (\<lambda>p. None)\<rparr>"

text \<open>
  A step is local to the files \<open>A\<close> and the directories \<open>B\<close> when its result and what
  it adds to the file system do not depend on the world it starts in: it returns the same
  \<open>r\<close>, writes the same files \<open>\<delta>\<close> inside \<open>A\<close> and creates the same directories
  \<open>D\<close> inside \<open>B\<close>.
\<close>

definition localTo :: "path set \<Rightarrow> path set \<Rightarrow> (world \<Rightarrow> 'r \<times> world) \<Rightarrow> bool" where
  "localTo A B f =
     (\<exists>r \<delta> D. dom \<delta> \<subseteq> A \<and> D \<subseteq> B \<and>
        (\<forall>w. fst (f w) = r \<and> files (snd (f w)) = files w ++ \<delta> \<and>
             dirs (snd (f w)) = dirs w \<union> D))"


section \<open>Properties of the normalizer\<close>

subsection \<open>Carriage returns\<close>

lemma crToLf_noCR: "CR \<notin> set (crToLf s)"
  by (induction s) auto

lemma trimLines_subset: "set (trimLines s) \<subseteq> set s"
proof (induction s rule: trimLines.induct)
  case 1
  show ?case by simp
next
  case (2 c cs)
  show ?case
  proof (cases "isBlank c \<and> atLineEnd (dropWhile isBlank cs)")
    case True
    with 2 have "set (trimLines (dropWhile isBlank cs)) \<subseteq> set (dropWhile isBlank cs)"
      by simp
    also have "\<dots> \<subseteq> set cs"
      by (rule set_dropWhileD[THEN subsetI])
    finally show ?thesis using True by auto
  next
    case False
    with 2 show ?thesis by auto
  qed
qed

lemma finalNewline_subset: "set (finalNewline s) \<subseteq> insert LF (set s)"
  by (induction s) auto

lemma crToLf_id: "CR \<notin> set s \<Longrightarrow> crToLf s = s"
  by (induction s) auto

lemma crlfToLf_id: "CR \<notin> set s \<Longrightarrow> crlfToLf s = s"
  by (induction s rule: crlfToLf.induct) auto

subsection \<open>Trailing blanks\<close>

lemma blank_not_terminator: "isBlank c \<Longrightarrow> \<not> isLineTerminator c"
  by (auto simp: isBlank_def isLineTerminator_def)

lemma atLineEnd_trimLines: "atLineEnd (trimLines s) = atLineEnd (dropWhile isBlank s)"
proof (induction s rule: trimLines.induct)
  case 1
  show ?case by simp
next
  case (2 c cs)
  show ?case
  proof (cases "isBlank c")
    case True
    show ?thesis
    proof (cases "atLineEnd (dropWhile isBlank cs)")
      case e: True
      have "dropWhile isBlank (dropWhile isBlank cs) = dropWhile isBlank cs"
        by simp
      with 2 True e show ?thesis by simp
    next
      case e: False
      with True show ?thesis by (simp add: atLineEnd_def blank_not_terminator)
    qed
  next
    case False
    then show ?thesis by (simp add: atLineEnd_def)
  qed
qed

lemma tidy_trimLines: "tidy (trimLines s)"
proof (induction s rule: trimLines.induct)
  case 1
  show ?case by simp
next
  case (2 c cs)
  show ?case
  proof (cases "isBlank c \<and> atLineEnd (dropWhile isBlank cs)")
    case True
    with 2 show ?thesis by simp
  next
    case False
    with 2 have t: "tidy (trimLines cs)" by simp
    from False have "isBlank c \<Longrightarrow> \<not> atLineEnd (trimLines cs)"
      by (simp add: atLineEnd_trimLines)
    with False t show ?thesis by auto
  qed
qed

lemma tidy_dropWhile: "tidy s \<Longrightarrow> \<not> atLineEnd s \<Longrightarrow> \<not> atLineEnd (dropWhile isBlank s)"
  by (induction s) (auto simp: atLineEnd_def)

lemma trimLines_tidy: "tidy s \<Longrightarrow> trimLines s = s"
proof (induction s)
  case Nil
  show ?case by simp
next
  case (Cons c cs)
  from Cons.prems have "isBlank c \<Longrightarrow> \<not> atLineEnd (dropWhile isBlank cs)"
    using tidy_dropWhile[of cs] by auto
  with Cons show ?case by auto
qed

lemma tidy_finalNewline: "tidy s \<Longrightarrow> tidy (finalNewline s)"
proof (induction s)
  case Nil
  show ?case by (simp add: isBlank_def atLineEnd_def)
next
  case (Cons c cs)
  show ?case
  proof (cases "list_all (\<lambda>d. d = LF) (c # cs)")
    case True
    then show ?thesis by (simp add: isBlank_def atLineEnd_def)
  next
    case False
    have "\<not> atLineEnd (finalNewline cs)" if "isBlank c"
    proof -
      from that Cons.prems have "\<not> atLineEnd cs" by simp
      then obtain d ds where cs: "cs = d # ds" and d: "\<not> isLineTerminator d"
        by (cases cs) (auto simp: atLineEnd_def)
      from d have "d \<noteq> LF" by (auto simp: isLineTerminator_def)
      with cs d show ?thesis by (simp add: atLineEnd_def)
    qed
    with False Cons show ?thesis by auto
  qed
qed

lemma tidy_blank_followed:
  "tidy (pre @ c # post) \<Longrightarrow> isBlank c \<Longrightarrow> \<not> atLineEnd post"
  by (induction pre) auto

lemma not_atLineEnd_hd: "\<not> atLineEnd s \<Longrightarrow> s \<noteq> [] \<and> hd s \<noteq> LF"
  by (cases s) (auto simp: atLineEnd_def isLineTerminator_def)

subsection \<open>The final linefeed\<close>

lemma finalNewline_allLF:
  "list_all (\<lambda>d. d = LF) (finalNewline s) = list_all (\<lambda>d. d = LF) s"
  by (induction s) auto

lemma finalNewline_idem: "finalNewline (finalNewline s) = finalNewline s"
  by (induction s) (auto simp: finalNewline_allLF)

lemma finalNewline_shape:
  "\<exists>body. finalNewline s = body @ [LF] \<and> (body = [] \<or> last body \<noteq> LF)"
proof (induction s)
  case Nil
  show ?case by simp
next
  case (Cons c cs)
  show ?case
  proof (cases "list_all (\<lambda>d. d = LF) (c # cs)")
    case True
    then show ?thesis by simp
  next
    case False
    from Cons obtain body where b: "finalNewline cs = body @ [LF]"
      and l: "body = [] \<or> last body \<noteq> LF" by blast
    have "last (c # body) \<noteq> LF"
    proof (cases "body = []")
      case True
      with b have "list_all (\<lambda>d. d = LF) (finalNewline cs)" by simp
      then have "list_all (\<lambda>d. d = LF) cs" by (simp add: finalNewline_allLF)
      with False have "c \<noteq> LF" by simp
      with True show ?thesis by simp
    next
      case False
      with l show ?thesis by simp
    qed
    moreover from False b have "finalNewline (c # cs) = (c # body) @ [LF]" by simp
    ultimately show ?thesis by blast
  qed
qed

subsection \<open>The mark\<close>

lemma crlfToLf_BOM: "startsWithBOM (crlfToLf s) = startsWithBOM s"
  by (induction s rule: crlfToLf.induct) auto

lemma crToLf_BOM: "startsWithBOM (crToLf s) = startsWithBOM s"
  by (cases s) auto

lemma atLineEnd_noBOM: "atLineEnd s \<Longrightarrow> \<not> startsWithBOM s"
  by (cases s) (auto simp: atLineEnd_def isLineTerminator_def)

lemma trimLines_BOM: "startsWithBOM (trimLines s) = startsWithBOM s"
proof (cases s)
  case Nil
  then show ?thesis by simp
next
  case (Cons c cs)
  show ?thesis
  proof (cases "isBlank c \<and> atLineEnd (dropWhile isBlank cs)")
    case True
    then have "atLineEnd (trimLines (dropWhile isBlank cs))"
      by (simp add: atLineEnd_trimLines)
    then have "\<not> startsWithBOM (trimLines (dropWhile isBlank cs))"
      by (rule atLineEnd_noBOM)
    moreover from True have "c \<noteq> BOM" by (auto simp: isBlank_def)
    ultimately show ?thesis using True Cons by simp
  next
    case False
    with Cons show ?thesis by auto
  qed
qed

lemma finalNewline_BOM: "startsWithBOM (finalNewline s) = startsWithBOM s"
  by (cases s) auto

lemma stripBOM_id: "\<not> startsWithBOM s \<Longrightarrow> stripBOM s = s"
  by (cases s) auto

lemma startsWithBOM_stripBOM: "startsWithBOM (stripBOM x) = (take 2 x = [BOM, BOM])"
proof (cases x)
  case Nil
  then show ?thesis by simp
next
  case (Cons c cs)
  then show ?thesis by (cases cs) auto
qed

subsection \<open>The steps behind the mark\<close>

lemma normalizeContent_body: "normalizeContent s = normalizeBody (stripBOM s)"
  by (simp add: normalizeContent_def normalizeBody_def)

lemma normalizeBody_lines: "normalizeBody s = finalNewline (normalizeLines s)"
  by (simp add: normalizeBody_def normalizeLines_def)

lemma normalizeBody_noCR: "CR \<notin> set (normalizeBody s)"
proof -
  have "set (normalizeBody s) \<subseteq> insert LF (set (crToLf (crlfToLf s)))"
    unfolding normalizeBody_def
    using finalNewline_subset trimLines_subset by blast
  then show ?thesis using crToLf_noCR by auto
qed

lemma normalizeBody_tidy: "tidy (normalizeBody s)"
  by (simp add: normalizeBody_def tidy_finalNewline tidy_trimLines)

lemma normalizeBody_idem: "normalizeBody (normalizeBody s) = normalizeBody s"
proof -
  let ?y = "normalizeBody s"
  have "crToLf (crlfToLf ?y) = ?y"
    by (simp add: crlfToLf_id crToLf_id normalizeBody_noCR)
  moreover have "trimLines ?y = ?y"
    by (rule trimLines_tidy) (rule normalizeBody_tidy)
  moreover have "finalNewline ?y = ?y"
    by (simp add: normalizeBody_def finalNewline_idem)
  ultimately show ?thesis
    by (simp add: normalizeBody_def[of ?y])
qed

lemma normalizeBody_BOM: "startsWithBOM (normalizeBody s) = startsWithBOM s"
  by (simp add: normalizeBody_def finalNewline_BOM trimLines_BOM crToLf_BOM crlfToLf_BOM)

lemma normalizeBody_Cons_BOM: "normalizeBody (BOM # s) = BOM # normalizeBody s"
proof -
  have "crlfToLf (BOM # s) = BOM # crlfToLf s"
    by (cases s) auto
  then show ?thesis
    by (simp add: normalizeBody_def isBlank_def)
qed

text \<open>
  On an input that begins with two marks the second application removes the mark the
  first one left: the premise of the idempotence theorem cannot be dropped.
\<close>

lemma normalizeContent_twice_double_BOM:
  "normalizeContent (normalizeContent (BOM # BOM # s)) \<noteq> normalizeContent (BOM # BOM # s)"
proof -
  have one: "normalizeContent (BOM # BOM # s) = BOM # normalizeBody s"
    by (simp add: normalizeContent_body normalizeBody_Cons_BOM)
  have "normalizeContent (BOM # normalizeBody s) = normalizeBody s"
    by (simp add: normalizeContent_body normalizeBody_idem)
  with one show ?thesis by simp
qed

subsection \<open>Claims C1 and C2\<close>

text \<open>
  C1, as the specification states it: the normalizer is idempotent for every input. It
  is not: on the text of two byte-order marks the first application answers a mark and a
  linefeed, the second a linefeed alone.
\<close>

theorem normalizeContent_idempotent_counterexample:
  "normalizeContent (normalizeContent [BOM, BOM]) \<noteq> normalizeContent [BOM, BOM]"
  by (simp add: normalizeContent_def isBlank_def atLineEnd_def isLineTerminator_def)

text \<open>
  C1, amended: for every input that does not begin with two consecutive byte-order marks,
  normalizing the normalized text gives the normalized text.
\<close>

theorem normalizeContent_idempotent:
  assumes "take 2 x \<noteq> [BOM, BOM]"
  shows "normalizeContent (normalizeContent x) = normalizeContent x"
proof -
  from assms have "\<not> startsWithBOM (stripBOM x)"
    by (simp add: startsWithBOM_stripBOM)
  then have "\<not> startsWithBOM (normalizeContent x)"
    by (simp add: normalizeContent_body normalizeBody_BOM)
  then have "stripBOM (normalizeContent x) = normalizeContent x"
    by (rule stripBOM_id)
  then have "normalizeContent (normalizeContent x) = normalizeBody (normalizeContent x)"
    by (simp add: normalizeContent_body[of "normalizeContent x"])
  then show ?thesis
    by (simp add: normalizeContent_body normalizeBody_idem)
qed

theorem normalizeContent_idempotent_witness:
  "take 2 ([BOM] @ js ''a b '' @ [CR, LF, TAB, CR, LF, LF]) \<noteq> [BOM, BOM] \<and>
   normalizeContent ([BOM] @ js ''a b '' @ [CR, LF, TAB, CR, LF, LF]) = js ''a b'' @ [LF] \<and>
   normalizeContent (js ''a b'' @ [LF]) = js ''a b'' @ [LF]"
  using normalizeContent_idempotent [of "[BOM] @ js ''a b '' @ [CR, LF, TAB, CR, LF, LF]"]
  by (simp add: normalizeContent_def js_def isBlank_def atLineEnd_def isLineTerminator_def)

text \<open>
  C2: for every input the output of the normalizer contains no carriage return; every
  space or tab in it is followed by a code unit other than the linefeed, so that no line
  ends in a space or tab; and it is a text that does not end in a linefeed (possibly
  empty) followed by one linefeed.
\<close>

theorem normalizeContent_output:
  "CR \<notin> set (normalizeContent x) \<and>
   (\<forall>pre c post. normalizeContent x = pre @ c # post \<and> isBlank c \<longrightarrow>
      post \<noteq> [] \<and> hd post \<noteq> LF) \<and>
   (\<exists>body. normalizeContent x = body @ [LF] \<and> (body = [] \<or> last body \<noteq> LF))"
proof -
  have "CR \<notin> set (normalizeContent x)"
    by (simp add: normalizeContent_body normalizeBody_noCR)
  moreover have "post \<noteq> [] \<and> hd post \<noteq> LF"
    if "normalizeContent x = pre @ c # post \<and> isBlank c" for pre c post
  proof -
    have "tidy (normalizeContent x)"
      by (simp add: normalizeContent_body normalizeBody_tidy)
    with that have "\<not> atLineEnd post"
      using tidy_blank_followed[of pre c post] by simp
    then show ?thesis by (rule not_atLineEnd_hd)
  qed
  moreover have "\<exists>body. normalizeContent x = body @ [LF] \<and> (body = [] \<or> last body \<noteq> LF)"
    unfolding normalizeContent_def by (rule finalNewline_shape)
  ultimately show ?thesis by blast
qed

theorem normalizeContent_output_witness:
  "normalizeContent (js ''a b '' @ [CR, LF, LF]) = js ''a'' @ SP # js ''b'' @ [LF] \<and>
   isBlank SP \<and> js ''b'' @ [LF] \<noteq> [] \<and> hd (js ''b'' @ [LF]) \<noteq> LF \<and>
   CR \<notin> set (normalizeContent (js ''a b '' @ [CR, LF, LF])) \<and>
   last (js ''a b'') \<noteq> LF"
  using normalizeContent_output [of "js ''a b '' @ [CR, LF, LF]"]
  by (simp add: normalizeContent_def js_def isBlank_def atLineEnd_def isLineTerminator_def)

section \<open>Properties of the acquirer\<close>

text \<open>Joining one of the five file names to a directory appends it.\<close>

lemma pathJoin_file:
  "pathJoin p ''index.dic'' = p @ [''index.dic'']"
  "pathJoin p ''index.aff'' = p @ [''index.aff'']"
  "pathJoin p ''.spdx'' = p @ [''.spdx'']"
  "pathJoin p ''.source'' = p @ [''.source'']"
  "pathJoin p ''license'' = p @ [''license'']"
  by (simp_all add: pathJoin_def)

lemmas world_ops = emit_def consoleLog_def existsSync_def mkdir_def fetch_def writeFile_def
  pathJoin_file

lemmas run_defs = processGuarded_def processDictionary_def acquireArtifacts_def
  downloadDic_def
  downloadAff_def downloadLicense_def writeStamps_def world_ops destDir_def pathJoin_def
  DICTIONARIES_DIR_def
  dicUrl_def affUrl_def licenseUrl_def dicFile_def affFile_def orElse_def includesChar_def
  LIBREOFFICE_BASE_URL_def exampleDescriptor_def emptyWorld_def ok_def

lemmas text_defs = affContent_def replaceSet_def replaceSetFrom_def matchSetAt_def
  normalizeContent_def js_def isBlank_def atLineEnd_def isLineTerminator_def

subsection \<open>File names and remote locations\<close>

lemma orElse_None: "orElse None b = b"
  by (simp add: orElse_def)

text \<open>
  C7: for every descriptor without overrides the word-list and affix file names are the
  folder with \<^verbatim>\<open>.dic\<close> and \<^verbatim>\<open>.aff\<close> appended, as the unconditional rule of the
  specification has it (the conditional on the underscore changes nothing), and the two
  remote locations are \<^verbatim>\<open>base/folder/folder.dic\<close> and \<^verbatim>\<open>base/folder/folder.aff\<close>.
\<close>

theorem default_file_names:
  assumes "dicPath dict = None" and "affPath dict = None"
  shows "dicFile dict = defaultFileName_spec (folder dict) ''.dic'' \<and>
         affFile dict = defaultFileName_spec (folder dict) ''.aff'' \<and>
         dicFile dict = folder dict @ ''.dic'' \<and>
         affFile dict = folder dict @ ''.aff'' \<and>
         dicUrl dict =
           LIBREOFFICE_BASE_URL @ ''/'' @ folder dict @ ''/'' @ folder dict @ ''.dic'' \<and>
         affUrl dict =
           LIBREOFFICE_BASE_URL @ ''/'' @ folder dict @ ''/'' @ folder dict @ ''.aff''"
  using assms
  by (simp add: dicFile_def affFile_def dicUrl_def affUrl_def defaultFileName_spec_def
      orElse_None)

theorem default_file_names_witness:
  "dicPath (exampleDescriptor ''xx'') = None \<and>
   affPath (exampleDescriptor ''xx'') = None \<and>
   folder (exampleDescriptor ''xx'') = ''xx_YY'' \<and>
   dicUrl (exampleDescriptor ''xx'') =
     ''https://raw.githubusercontent.com/LibreOffice/dictionaries/master/xx_YY/xx_YY.dic'' \<and>
   affUrl (exampleDescriptor ''xx'') =
     ''https://raw.githubusercontent.com/LibreOffice/dictionaries/master/xx_YY/xx_YY.aff''"
  using default_file_names [of "exampleDescriptor ''xx''"]
  by (simp add: LIBREOFFICE_BASE_URL_def exampleDescriptor_def)

subsection \<open>The catalog\<close>

text \<open>
  C9: the codes of the static catalog are pairwise distinct, and so are the local
  directories the descriptors write to.
\<close>

theorem catalog_codes_distinct:
  "distinct (map code LIBREOFFICE_DICTIONARIES) \<and>
   distinct (map destDir LIBREOFFICE_DICTIONARIES)"
  by (simp add: LIBREOFFICE_DICTIONARIES_def destDir_def pathJoin_def)

subsection \<open>The skip\<close>

text \<open>
  C5: when the destination directory already holds \<^verbatim>\<open>index.dic\<close>, the acquirer returns
  normally after exactly two effects, the existence check of \<^verbatim>\<open>index.dic\<close> and one
  console line: no fetch, no write, no other existence check, and every file and
  directory as it was.
\<close>

theorem already_present_skips:
  assumes "files w (destDir dict @ [''index.dic'']) \<noteq> None"
  shows "processDictionary e dict w =
           (Inr (), w\<lparr>trace := trace w @
              [ExistsSync (destDir dict @ [''index.dic'']),
               ConsoleLog (LogAlreadyExists (code dict) (name dict))]\<rparr>)"
  using assms by (simp add: processDictionary_def world_ops)

theorem already_present_skips_witness:
  "files (emptyWorld\<lparr>files := [destDir (exampleDescriptor ''xx'') @ [''index.dic''] \<mapsto> []]\<rparr>)
     (destDir (exampleDescriptor ''xx'') @ [''index.dic'']) \<noteq> None \<and>
   processDictionary notFoundEnv (exampleDescriptor ''xx'')
      (emptyWorld\<lparr>files := [destDir (exampleDescriptor ''xx'') @ [''index.dic''] \<mapsto> []]\<rparr>) =
     (Inr (), \<lparr>files = [[''dictionaries'', ''xx'', ''index.dic''] \<mapsto> []], dirs = {},
        trace = [ExistsSync [''dictionaries'', ''xx'', ''index.dic''],
                 ConsoleLog (LogAlreadyExists ''xx'' ''Example'')]\<rparr>)"
  using already_present_skips [of
      "emptyWorld\<lparr>files := [destDir (exampleDescriptor ''xx'') @ [''index.dic''] \<mapsto> []]\<rparr>"
      "exampleDescriptor ''xx''" notFoundEnv]
  by (simp add: emptyWorld_def destDir_def pathJoin_def DICTIONARIES_DIR_def exampleDescriptor_def)

subsection \<open>A failed word-list download\<close>

lemma downloadDic_fails:
  assumes "dicFetchFails e dict"
  shows "\<exists>x. downloadDic e dict w = (Inl x, emit (Fetch (dicUrl dict)) w)"
  using assms
  by (auto simp: dicFetchFails_def downloadDic_def fetch_def split: sum.splits)

text \<open>
  C4: when the fetch of the word list answers a status outside 200-299 or throws,
  processing the descriptor writes no file at all (so none of \<^verbatim>\<open>index.aff\<close>,
  \<^verbatim>\<open>.spdx\<close>, \<^verbatim>\<open>.source\<close> and \<^verbatim>\<open>license\<close>), fetches nothing but the word list,
  leaves every file as it was and, where the directory could be created, returns
  normally; the loop goes on to the remaining descriptors with the files untouched.
\<close>

theorem word_list_failure_is_terminal:
  assumes "dicFetchFails e dict"
  shows "(\<exists>evs. trace (snd (processDictionary e dict w)) = trace w @ evs \<and>
            (\<forall>p c. WriteFile p c \<notin> set evs) \<and>
            (\<forall>u. Fetch u \<in> set evs \<longrightarrow> u = dicUrl dict)) \<and>
         files (snd (processDictionary e dict w)) = files w \<and>
         (mkdirFault e (destDir dict) = None \<longrightarrow> fst (processDictionary e dict w) = Inr ()) \<and>
         files (processGuarded e dict w) = files w \<and>
         processAll e (dict # rest) w = processAll e rest (processGuarded e dict w)"
proof -
  from assms have d: "\<exists>x. downloadDic e dict v = (Inl x, emit (Fetch (dicUrl dict)) v)" for v
    by (rule downloadDic_fails)
  let ?w2 = "snd (mkdir e (destDir dict)
      (consoleLog (LogProcessing (code dict) (name dict))
        (snd (existsSync (destDir dict @ [''index.dic'']) w))))"
  from d obtain x where x: "downloadDic e dict ?w2 = (Inl x, emit (Fetch (dicUrl dict)) ?w2)"
    by blast
  show ?thesis
  proof (cases "fst (existsSync (destDir dict @ [''index.dic'']) w)")
    case True
    then show ?thesis
      by (auto simp: processGuarded_def processDictionary_def acquireArtifacts_def world_ops)
  next
    case False
    show ?thesis
    proof (cases "mkdirFault e (destDir dict)")
      case (Some y)
      with False show ?thesis
        by (auto simp: processGuarded_def processDictionary_def acquireArtifacts_def world_ops)
    next
      case None
      with False x show ?thesis
        by (auto simp: processGuarded_def processDictionary_def acquireArtifacts_def world_ops)
    qed
  qed
qed

theorem word_list_failure_is_terminal_witness:
  "dicFetchFails notFoundEnv (exampleDescriptor ''xx'') \<and>
   processDictionary notFoundEnv (exampleDescriptor ''xx'') emptyWorld =
     (Inr (),
      \<lparr>files = Map.empty,
       dirs = {[''dictionaries''], [''dictionaries'', ''xx'']},
       trace = [ExistsSync [''dictionaries'', ''xx'', ''index.dic''],
                ConsoleLog (LogProcessing ''xx'' ''Example''),
                Mkdir [''dictionaries'', ''xx''],
                Fetch ''https://raw.githubusercontent.com/LibreOffice/dictionaries/master/xx_YY/xx_YY.dic'',
                ConsoleLog (LogDicFailed (HttpError 404))]\<rparr>)"
  using word_list_failure_is_terminal [of notFoundEnv "exampleDescriptor ''xx''" emptyWorld]
  by (simp add: dicFetchFails_def notFoundEnv_def run_defs)

subsection \<open>A failed license download\<close>

lemma downloadDic_ok:
  assumes "net e (dicUrl dict) = Inr r" "ok r" "text_of r = Inr c"
    and "writeFault e (destDir dict @ [''index.dic'']) = None"
  shows "downloadDic e dict w =
    (Inr (), w\<lparr>files := (files w)(destDir dict @ [''index.dic''] \<mapsto> normalizeContent c),
               trace := trace w @ [Fetch (dicUrl dict),
                  WriteFile (destDir dict @ [''index.dic'']) (normalizeContent c),
                  ConsoleLog (LogWritten ''index.dic'')]\<rparr>)"
  using assms by (simp add: downloadDic_def world_ops)

lemma downloadAff_ok:
  assumes "net e (affUrl dict) = Inr r" "ok r" "text_of r = Inr c"
    and "writeFault e (destDir dict @ [''index.aff'']) = None"
  shows "downloadAff e dict w =
    (Inr (), w\<lparr>files := (files w)(destDir dict @ [''index.aff''] \<mapsto> affContent c),
               trace := trace w @ [Fetch (affUrl dict),
                  WriteFile (destDir dict @ [''index.aff'']) (affContent c),
                  ConsoleLog (LogWritten ''index.aff'')]\<rparr>)"
  using assms by (simp add: downloadAff_def world_ops)

lemma downloadLicense_fails:
  assumes "licenseFetchFails e dict"
  shows "downloadLicense e dict w =
    ((case net e (licenseUrl dict) of Inl x \<Rightarrow> Inl x | Inr r \<Rightarrow> Inr ()),
     w\<lparr>trace := trace w @ [Fetch (licenseUrl dict)]\<rparr>)"
  using assms
  by (auto simp: licenseFetchFails_def downloadLicense_def world_ops split: sum.splits)

lemma writeStamps_license_fails:
  assumes "licenseFetchFails e dict"
    and "writeFault e (destDir dict @ [''.spdx'']) = None"
    and "writeFault e (destDir dict @ [''.source'']) = None"
  shows "writeStamps e dict w =
    (Inr (), w\<lparr>files := (files w)
                 (destDir dict @ [''.spdx''] \<mapsto> js (license dict) @ [LF],
                  destDir dict @ [''.source''] \<mapsto>
                    js ''https://github.com/LibreOffice/dictionaries'' @ [LF]),
               trace := trace w @
                 [WriteFile (destDir dict @ [''.spdx'']) (js (license dict) @ [LF]),
                  ConsoleLog (LogWritten ''.spdx''),
                  WriteFile (destDir dict @ [''.source''])
                    (js ''https://github.com/LibreOffice/dictionaries'' @ [LF]),
                  ConsoleLog (LogWritten ''.source''),
                  Fetch (licenseUrl dict)] @
                 (case net e (licenseUrl dict) of
                    Inl x \<Rightarrow> [ConsoleLog LogNoLicense] | Inr r \<Rightarrow> []) @
                 [ConsoleLog (LogDone (code dict) (name dict))]\<rparr>)"
  using assms
  by (simp add: writeStamps_def downloadLicense_fails world_ops split: sum.splits)

text \<open>
  C6: on a fresh destination, with a file system that does not fail, when the word list
  and the affix file are fetched and the fetch of the license text answers a status
  outside 200-299 or throws, the acquirer returns normally; it has written
  \<^verbatim>\<open>index.dic\<close>, \<^verbatim>\<open>index.aff\<close>, \<^verbatim>\<open>.spdx\<close> (the license identifier and one linefeed)
  and \<^verbatim>\<open>.source\<close>, and nothing to \<^verbatim>\<open>license\<close>. Its effects are listed in full: the
  only trace of the failure is the line "no license file found" when the fetch threw, and
  the last line reports the descriptor as done.
\<close>

theorem license_failure_tolerated:
  assumes fresh: "files w (destDir dict @ [''index.dic'']) = None"
      "destDir dict @ [''index.dic''] \<notin> dirs w"
    and fs: "mkdirFault e (destDir dict) = None"
      "\<forall>f \<in> {''index.dic'', ''index.aff'', ''.spdx'', ''.source''}.
         writeFault e (destDir dict @ [f]) = None"
    and dic: "net e (dicUrl dict) = Inr r1" "ok r1" "text_of r1 = Inr c1"
    and aff: "net e (affUrl dict) = Inr r2" "ok r2" "text_of r2 = Inr c2"
    and lic: "licenseFetchFails e dict"
  shows "\<exists>w'. processDictionary e dict w = (Inr (), w') \<and>
     files w' = (files w)
       (destDir dict @ [''index.dic''] \<mapsto> normalizeContent c1,
        destDir dict @ [''index.aff''] \<mapsto> affContent c2,
        destDir dict @ [''.spdx''] \<mapsto> js (license dict) @ [LF],
        destDir dict @ [''.source''] \<mapsto>
          js ''https://github.com/LibreOffice/dictionaries'' @ [LF]) \<and>
     files w' (destDir dict @ [''license'']) = files w (destDir dict @ [''license'']) \<and>
     trace w' = trace w @
       [ExistsSync (destDir dict @ [''index.dic'']),
        ConsoleLog (LogProcessing (code dict) (name dict)),
        Mkdir (destDir dict),
        Fetch (dicUrl dict),
        WriteFile (destDir dict @ [''index.dic'']) (normalizeContent c1),
        ConsoleLog (LogWritten ''index.dic''),
        Fetch (affUrl dict),
        WriteFile (destDir dict @ [''index.aff'']) (affContent c2),
        ConsoleLog (LogWritten ''index.aff''),
        WriteFile (destDir dict @ [''.spdx'']) (js (license dict) @ [LF]),
        ConsoleLog (LogWritten ''.spdx''),
        WriteFile (destDir dict @ [''.source''])
          (js ''https://github.com/LibreOffice/dictionaries'' @ [LF]),
        ConsoleLog (LogWritten ''.source''),
        Fetch (licenseUrl dict)] @
       (case net e (licenseUrl dict) of
          Inl x \<Rightarrow> [ConsoleLog LogNoLicense] | Inr r \<Rightarrow> []) @
       [ConsoleLog (LogDone (code dict) (name dict))]"
proof -
  from fs have w: "writeFault e (destDir dict @ [''index.dic'']) = None"
    "writeFault e (destDir dict @ [''index.aff'']) = None"
    "writeFault e (destDir dict @ [''.spdx'']) = None"
    "writeFault e (destDir dict @ [''.source'']) = None"
    by simp_all
  show ?thesis
    using fresh fs(1)
    by (simp add: processDictionary_def acquireArtifacts_def downloadDic_ok[OF dic w(1)]
        downloadAff_ok[OF aff w(2)] writeStamps_license_fails[OF lic w(3) w(4)]
        existsSync_def mkdir_def consoleLog_def emit_def pathJoin_file split: sum.splits)
qed

theorem license_failure_tolerated_witness:
  "files emptyWorld (destDir (exampleDescriptor ''xx'') @ [''index.dic'']) = None \<and>
   destDir (exampleDescriptor ''xx'') @ [''index.dic''] \<notin> dirs emptyWorld \<and>
   licenseFetchFails licenseMissingEnv (exampleDescriptor ''xx'') \<and>
   fst (processDictionary licenseMissingEnv (exampleDescriptor ''xx'') emptyWorld) = Inr () \<and>
   files (snd (processDictionary licenseMissingEnv (exampleDescriptor ''xx'') emptyWorld)) =
     [[''dictionaries'', ''xx'', ''index.dic''] \<mapsto> js ''SET ISO8859-1'' @ [LF],
      [''dictionaries'', ''xx'', ''index.aff''] \<mapsto> js ''SET UTF-8'' @ [LF],
      [''dictionaries'', ''xx'', ''.spdx''] \<mapsto> js ''GPL-3.0'' @ [LF],
      [''dictionaries'', ''xx'', ''.source''] \<mapsto>
        js ''https://github.com/LibreOffice/dictionaries'' @ [LF]]"
  using license_failure_tolerated [of emptyWorld "exampleDescriptor ''xx''" licenseMissingEnv
      "Response 200 (Inr (js ''SET ISO8859-1'' @ [CR, LF]))" "js ''SET ISO8859-1'' @ [CR, LF]"
      "Response 200 (Inr (js ''SET ISO8859-1'' @ [CR, LF]))" "js ''SET ISO8859-1'' @ [CR, LF]"]
  by (simp add: licenseFetchFails_def licenseMissingEnv_def run_defs text_defs)

section \<open>The batch\<close>

subsection \<open>Steps that do not depend on the world\<close>

lemma localToI:
  assumes "dom \<delta> \<subseteq> A" "D \<subseteq> B"
    and "\<And>w. fst (f w) = r \<and> files (snd (f w)) = files w ++ \<delta> \<and> dirs (snd (f w)) = dirs w \<union> D"
  shows "localTo A B f"
  unfolding localTo_def using assms by blast

lemma localTo_return: "localTo A B (\<lambda>w. (r, w))"
  by (rule localToI[where \<delta> = Map.empty and D = "{}" and r = r]) auto

lemma localTo_log: "localTo A B (\<lambda>w. (r, consoleLog l w))"
  by (rule localToI[where \<delta> = Map.empty and D = "{}" and r = r]) (auto simp: world_ops)

lemma localTo_log2: "localTo A B (\<lambda>w. (r, consoleLog l (consoleLog l' w)))"
  by (rule localToI[where \<delta> = Map.empty and D = "{}" and r = r]) (auto simp: world_ops)

lemma localTo_after_log: "localTo A B f \<Longrightarrow> localTo A B (\<lambda>w. f (consoleLog l w))"
  unfolding localTo_def by (auto simp: world_ops) metis

lemma localTo_fetch: "localTo A B (fetch e u)"
  by (rule localToI[where \<delta> = Map.empty and D = "{}" and r = "net e u"]) (auto simp: world_ops)

lemma localTo_writeFile: "p \<in> A \<Longrightarrow> localTo A B (writeFile e p c)"
proof (cases "writeFault e p")
  case None
  assume "p \<in> A"
  then show ?thesis
    using None
    by (intro localToI[where \<delta> = "[p \<mapsto> c]" and D = "{}" and r = "Inr ()"])
       (auto simp: world_ops)
next
  case (Some x)
  then show ?thesis
    by (intro localToI[where \<delta> = Map.empty and D = "{}" and r = "Inl x"])
       (auto simp: world_ops)
qed

lemma localTo_mkdir: "set (dirChain [] p) \<subseteq> B \<Longrightarrow> localTo A B (mkdir e p)"
proof (cases "mkdirFault e p")
  case None
  assume "set (dirChain [] p) \<subseteq> B"
  then show ?thesis
    using None
    by (intro localToI[where \<delta> = Map.empty and D = "set (dirChain [] p)" and r = "Inr ()"])
       (auto simp: world_ops)
next
  case (Some x)
  then show ?thesis
    by (intro localToI[where \<delta> = Map.empty and D = "{}" and r = "Inl x"])
       (auto simp: world_ops)
qed

lemma localTo_bind:
  assumes f: "localTo A B f" and g: "\<And>r. localTo A B (g r)"
  shows "localTo A B (\<lambda>w. g (fst (f w)) (snd (f w)))"
proof -
  from f obtain r \<delta> D where 1: "dom \<delta> \<subseteq> A" "D \<subseteq> B"
    and 2: "\<And>w. fst (f w) = r \<and> files (snd (f w)) = files w ++ \<delta> \<and> dirs (snd (f w)) = dirs w \<union> D"
    unfolding localTo_def by blast
  from g[of r] obtain r' \<delta>' D' where 3: "dom \<delta>' \<subseteq> A" "D' \<subseteq> B"
    and 4: "\<And>w. fst (g r w) = r' \<and> files (snd (g r w)) = files w ++ \<delta>' \<and> dirs (snd (g r w)) = dirs w \<union> D'"
    unfolding localTo_def by blast
  show ?thesis
  proof (rule localToI[where \<delta> = "\<delta> ++ \<delta>'" and D = "D \<union> D'" and r = r'])
    show "dom (\<delta> ++ \<delta>') \<subseteq> A" using 1 3 by auto
    show "D \<union> D' \<subseteq> B" using 1 3 by auto
    fix w
    show "fst (g (fst (f w)) (snd (f w))) = r' \<and>
          files (snd (g (fst (f w)) (snd (f w)))) = files w ++ (\<delta> ++ \<delta>') \<and>
          dirs (snd (g (fst (f w)) (snd (f w)))) = dirs w \<union> (D \<union> D')"
      using 2[of w] 4[of "snd (f w)"] by auto
  qed
qed

lemma localTo_sum:
  assumes "\<And>x. localTo A B (h1 x)" and "\<And>u. localTo A B (h2 u)"
  shows "localTo A B (\<lambda>w. case s of Inl x \<Rightarrow> h1 x w | Inr u \<Rightarrow> h2 u w)"
  using assms by (cases s) simp_all

lemma localTo_case:
  assumes "localTo A B f" and "\<And>x. localTo A B (h1 x)" and "\<And>u. localTo A B (h2 u)"
  shows "localTo A B (\<lambda>w. case f w of (Inl x, w1) \<Rightarrow> h1 x w1 | (Inr u, w1) \<Rightarrow> h2 u w1)"
proof -
  have "localTo A B (\<lambda>w. (\<lambda>r w1. case r of Inl x \<Rightarrow> h1 x w1 | Inr u \<Rightarrow> h2 u w1) (fst (f w)) (snd (f w)))"
    by (rule localTo_bind[OF assms(1)]) (rule localTo_sum; rule assms)
  then show ?thesis
    by (simp add: case_prod_beta)
qed

lemma localTo_if:
  assumes "c \<Longrightarrow> localTo A B f" and "\<not> c \<Longrightarrow> localTo A B g"
  shows "localTo A B (\<lambda>w. if c then f w else g w)"
  using assms by (cases c) simp_all

lemmas localTo_intros = localTo_case localTo_if localTo_sum localTo_return localTo_log
  localTo_log2 localTo_fetch localTo_writeFile localTo_mkdir localTo_after_log




lemma localTo_downloadLicense_in:
  assumes "destDir d @ [''license''] \<in> A"
  shows "localTo A B (downloadLicense e d)"
  unfolding downloadLicense_def[abs_def] pathJoin_file
  by (intro localTo_intros assms)

lemma localTo_writeStamps_in:
  assumes "destDir d @ [''.spdx''] \<in> A" and "destDir d @ [''.source''] \<in> A"
    and "destDir d @ [''license''] \<in> A"
  shows "localTo A B (writeStamps e d)"
  unfolding writeStamps_def[abs_def] pathJoin_file
  by (intro localTo_intros assms localTo_downloadLicense_in)

text \<open>What follows the two downloads leaves \<^verbatim>\<open>index.dic\<close> and \<^verbatim>\<open>index.aff\<close> alone.\<close>

lemma writeStamps_frame:
  assumes "p \<notin> {destDir d @ [''.spdx''], destDir d @ [''.source''], destDir d @ [''license'']}"
  shows "files (snd (writeStamps e d w)) p = files w p"
proof -
  let ?A = "{destDir d @ [''.spdx''], destDir d @ [''.source''], destDir d @ [''license'']}"
  have "localTo ?A {} (writeStamps e d)"
    by (rule localTo_writeStamps_in) simp_all
  then obtain \<delta> where dom: "dom \<delta> \<subseteq> ?A"
    and eq: "files (snd (writeStamps e d w)) = files w ++ \<delta>"
    unfolding localTo_def by blast
  from dom assms have "p \<notin> dom \<delta>" by blast
  with eq show ?thesis
    by (simp add: map_add_dom_app_simps)
qed


subsection \<open>Processing one descriptor, seen from the others\<close>
















subsection \<open>Claim C8\<close>



section \<open>The SET pragma\<close>

subsection \<open>The search\<close>

lemma atLineEnd_dropWhile: "atLineEnd (dropWhile (\<lambda>c. \<not> isLineTerminator c) xs)"
  by (induction xs) (auto simp: atLineEnd_def)

lemma matchSetAt_sound:
  assumes "matchSetAt s = Some (m, rest)"
  shows "s = m @ rest \<and> take 4 m = js ''SET '' \<and>
         (\<forall>c \<in> set (drop 4 m). \<not> isLineTerminator c) \<and> atLineEnd rest"
proof -
  from assms have t: "take 4 s = js ''SET ''"
    and m: "m = take 4 s @ takeWhile (\<lambda>c. \<not> isLineTerminator c) (drop 4 s)"
    and r: "rest = dropWhile (\<lambda>c. \<not> isLineTerminator c) (drop 4 s)"
    by (auto simp: matchSetAt_def split: if_splits)
  have l: "length (take 4 s) = 4" using t by (simp add: js_def)
  have "s = m @ rest" using m r by simp
  moreover have "take 4 m = js ''SET ''" using m t l by simp
  moreover have "drop 4 m = takeWhile (\<lambda>c. \<not> isLineTerminator c) (drop 4 s)"
    using m l by simp
  then have "\<forall>c \<in> set (drop 4 m). \<not> isLineTerminator c"
    by (auto dest: set_takeWhileD)
  moreover have "atLineEnd rest"
    unfolding r by (rule atLineEnd_dropWhile)
  ultimately show ?thesis by blast
qed

lemma searchSet_sound:
  assumes "searchSet bol s = Some (pre, m, rest)"
  shows "s = pre @ m @ rest \<and> take 4 m = js ''SET '' \<and>
         (\<forall>c \<in> set (drop 4 m). \<not> isLineTerminator c) \<and> atLineEnd rest \<and>
         (if pre = [] then bol else isLineTerminator (last pre))"
  using assms
proof (induction s arbitrary: bol pre)
  case Nil
  then show ?case by simp
next
  case (Cons c cs)
  show ?case
  proof (cases "bol \<and> matchSetAt (c # cs) \<noteq> None")
    case True
    then obtain m' r' where mr: "matchSetAt (c # cs) = Some (m', r')" by auto
    with True Cons.prems have "pre = []" "m = m'" "rest = r'" by auto
    with matchSetAt_sound[OF mr] True show ?thesis by simp
  next
    case False
    then have n: "(if bol then matchSetAt (c # cs) else None) = None"
      by (cases "matchSetAt (c # cs)") auto
    with Cons.prems obtain p where s: "searchSet (isLineTerminator c) cs = Some (p, m, rest)"
      and p: "pre = c # p"
      by (auto split: option.splits)
    from Cons.IH[OF s] p show ?thesis by (auto split: if_splits)
  qed
qed

lemma searchSet_skip:
  assumes "\<forall>c \<in> set a. \<not> isLineTerminator c"
  shows "searchSet False (a @ s) =
         map_option (\<lambda>(p, m, r). (a @ p, m, r)) (searchSet False s)"
  using assms
proof (induction a)
  case Nil
  show ?case by (simp add: option.map_ident case_prod_unfold)
next
  case (Cons c a)
  then show ?case by (auto split: option.splits)
qed

lemma replaceSetFrom_skip:
  assumes "\<forall>c \<in> set a. \<not> isLineTerminator c"
  shows "replaceSetFrom False (a @ s) = a @ replaceSetFrom False s"
  by (auto simp: replaceSetFrom_def searchSet_skip[OF assms] split: option.splits)

lemma replaceSetFrom_atLineEnd:
  "atLineEnd s \<Longrightarrow> atLineEnd (replaceSetFrom False s)"
  by (cases s) (auto simp: replaceSetFrom_def atLineEnd_def split: option.splits)

lemma replaceSet_BOM: "replaceSet (BOM # s) = BOM # replaceSetFrom False s"
  by (auto simp: replaceSet_def replaceSetFrom_def matchSetAt_def js_def isLineTerminator_def
      split: option.splits)

subsection \<open>Normalization of a text in pieces\<close>

lemma stripBOM_append:
  "p \<noteq> [] \<or> \<not> startsWithBOM q \<Longrightarrow> stripBOM (p @ q) = stripBOM p @ q"
  by (cases p) (auto simp: stripBOM_id)

lemma crlfToLf_append:
  "q = [] \<or> hd q \<noteq> LF \<Longrightarrow> crlfToLf (p @ q) = crlfToLf p @ crlfToLf q"
proof (induction p rule: crlfToLf.induct)
  case (1 c d cs)
  then show ?case by auto
qed (cases q; auto)+

lemma crlfToLf_prefix: "CR \<notin> set a \<Longrightarrow> crlfToLf (a @ s) = a @ crlfToLf s"
proof (induction a)
  case Nil
  show ?case by simp
next
  case (Cons c a)
  then show ?case by (cases "a @ s") auto
qed

lemma crToLf_append: "crToLf (p @ q) = crToLf p @ crToLf q"
  by (induction p) auto

lemma crlfToLf_last:
  "p \<noteq> [] \<Longrightarrow> isLineTerminator (last p) \<Longrightarrow>
   crlfToLf p \<noteq> [] \<and> isLineTerminator (last (crlfToLf p))"
proof (induction p rule: crlfToLf.induct)
  case (1 c d cs)
  then show ?case by (cases cs) (auto simp: isLineTerminator_def)
qed simp_all

lemma crToLf_last_eq:
  "p \<noteq> [] \<Longrightarrow> crToLf p \<noteq> [] \<and> last (crToLf p) = (if last p = CR then LF else last p)"
  by (induction p) auto

lemma crToLf_last:
  "p \<noteq> [] \<Longrightarrow> isLineTerminator (last p) \<Longrightarrow>
   crToLf p \<noteq> [] \<and> isLineTerminator (last (crToLf p))"
  using crToLf_last_eq[of p] by (auto simp: isLineTerminator_def)

lemma crlfToLf_atLineEnd: "atLineEnd (crlfToLf s) = atLineEnd s"
  by (induction s rule: crlfToLf.induct) (auto simp: atLineEnd_def isLineTerminator_def)

lemma crToLf_atLineEnd: "atLineEnd s \<Longrightarrow> atLineEnd (crToLf s)"
  by (cases s) (auto simp: atLineEnd_def isLineTerminator_def)

lemma atLineEnd_dropWhile_blank: "atLineEnd s \<Longrightarrow> dropWhile isBlank s = s"
  by (cases s) (auto simp: atLineEnd_def dest: blank_not_terminator)

lemma trimLines_append:
  "p = [] \<or> \<not> isBlank (last p) \<Longrightarrow> trimLines (p @ q) = trimLines p @ trimLines q"
proof (induction p rule: trimLines.induct)
  case 1
  show ?case by simp
next
  case (2 c cs)
  show ?case
  proof (cases "cs = []")
    case True
    with 2 show ?thesis by simp
  next
    case False
    with 2 have nb: "\<not> isBlank (last cs)" by simp
    with False have ex: "last cs \<in> set cs" "\<not> isBlank (last cs)" by simp_all
    then have d: "dropWhile isBlank (cs @ q) = dropWhile isBlank cs @ q"
      by simp
    from ex have ne: "dropWhile isBlank cs \<noteq> []" by auto
    then have a: "atLineEnd (dropWhile isBlank cs @ q) = atLineEnd (dropWhile isBlank cs)"
      by (cases "dropWhile isBlank cs") (auto simp: atLineEnd_def)
    have l: "last (dropWhile isBlank cs) = last cs"
      using ne by (metis takeWhile_dropWhile_id last_appendR)
    show ?thesis
    proof (cases "isBlank c \<and> atLineEnd (dropWhile isBlank cs)")
      case True
      with 2(1) nb l have "trimLines (dropWhile isBlank cs @ q) =
          trimLines (dropWhile isBlank cs) @ trimLines q" by simp
      with True d a show ?thesis by simp
    next
      case f: False
      with 2(2) nb False have "trimLines (cs @ q) = trimLines cs @ trimLines q" by simp
      with f d a show ?thesis by auto
    qed
  qed
qed

lemma rstrip_Cons:
  "rstrip (c # cs) = (if isBlank c \<and> list_all isBlank cs then [] else c # rstrip cs)"
  by (auto simp: rstrip_def dropWhile_append list_all_iff)

lemma trimLines_line:
  assumes "atLineEnd r"
  shows "\<forall>c \<in> set a. \<not> isLineTerminator c \<Longrightarrow> trimLines (a @ r) = rstrip a @ trimLines r"
proof (induction a)
  case Nil
  show ?case by (simp add: rstrip_def)
next
  case (Cons c cs)
  then have ih: "trimLines (cs @ r) = rstrip cs @ trimLines r" by simp
  show ?case
  proof (cases "list_all isBlank cs")
    case True
    then have "dropWhile isBlank (cs @ r) = r"
      using assms by (simp add: list_all_iff atLineEnd_dropWhile_blank)
    moreover from True have "rstrip cs = []"
      by (simp add: rstrip_def list_all_iff)
    ultimately show ?thesis
      using assms ih True by (simp add: rstrip_Cons)
  next
    case False
    then obtain x where x: "x \<in> set cs" "\<not> isBlank x" by (auto simp: list_all_iff)
    then have d: "dropWhile isBlank (cs @ r) = dropWhile isBlank cs @ r"
      by simp
    from x have ne: "dropWhile isBlank cs \<noteq> []" by auto
    then have "hd (dropWhile isBlank cs) \<in> set cs"
      using set_dropWhileD hd_in_set by metis
    with Cons.prems have "\<not> isLineTerminator (hd (dropWhile isBlank cs))" by simp
    with ne have "\<not> atLineEnd (dropWhile isBlank cs @ r)"
      by (cases "dropWhile isBlank cs") (auto simp: atLineEnd_def)
    with d ih False show ?thesis by (simp add: rstrip_Cons)
  qed
qed

lemma finalNewline_append:
  "\<not> list_all (\<lambda>d. d = LF) q \<Longrightarrow> finalNewline (p @ q) = p @ finalNewline q"
  by (induction p) auto

lemma finalNewline_prefix: "LF \<notin> set p \<Longrightarrow> finalNewline (p @ q) = p @ finalNewline q"
  by (induction p) auto

lemma trimLines_last:
  "s \<noteq> [] \<Longrightarrow> \<not> isBlank (last s) \<Longrightarrow> trimLines s \<noteq> [] \<and> last (trimLines s) = last s"
proof (induction s rule: trimLines.induct)
  case 1
  then show ?case by simp
next
  case (2 c cs)
  show ?case
  proof (cases "cs = []")
    case True
    with 2 show ?thesis by simp
  next
    case False
    with 2 have nb: "\<not> isBlank (last cs)" by simp
    with False have ex: "last cs \<in> set cs" "\<not> isBlank (last cs)" by simp_all
    then have ne: "dropWhile isBlank cs \<noteq> []" by auto
    have l: "last (dropWhile isBlank cs) = last cs"
      using ne by (metis takeWhile_dropWhile_id last_appendR)
    show ?thesis
    proof (cases "isBlank c \<and> atLineEnd (dropWhile isBlank cs)")
      case True
      with 2(1) ne nb l False show ?thesis by simp
    next
      case f: False
      with 2(2) nb False show ?thesis by auto
    qed
  qed
qed

subsection \<open>The rewritten line in the persisted file\<close>

lemma matchSetAt_prefix:
  "matchSetAt (p @ q) = None \<Longrightarrow> matchSetAt p = None"
proof (rule ccontr)
  assume n: "matchSetAt (p @ q) = None" and "matchSetAt p \<noteq> None"
  then have t: "take 4 p = js ''SET ''" by (auto simp: matchSetAt_def split: if_splits)
  then have "length p \<ge> 4" by (cases "length p \<ge> 4") (auto simp: js_def)
  with t have "take 4 (p @ q) = js ''SET ''" by simp
  with n show False by (simp add: matchSetAt_def)
qed

lemma searchSet_first:
  "searchSet bol s = Some (pre, m, rest) \<Longrightarrow> searchSet bol pre = None"
proof (induction s arbitrary: bol pre)
  case Nil
  then show ?case by simp
next
  case (Cons c cs)
  show ?case
  proof (cases "bol \<and> matchSetAt (c # cs) \<noteq> None")
    case True
    with Cons.prems have "pre = []" by auto
    then show ?thesis by simp
  next
    case False
    then have n: "(if bol then matchSetAt (c # cs) else None) = None"
      by (cases "matchSetAt (c # cs)") auto
    with Cons.prems obtain p where s: "searchSet (isLineTerminator c) cs = Some (p, m, rest)"
      and p: "pre = c # p"
      by (auto split: option.splits)
    from searchSet_sound[OF s] have cs: "cs = p @ m @ rest" by simp
    have "(if bol then matchSetAt (c # p) else None) = None"
    proof (cases bol)
      case True
      with n cs have "matchSetAt ((c # p) @ m @ rest) = None" by simp
      then have "matchSetAt (c # p) = None" by (rule matchSetAt_prefix)
      then show ?thesis by simp
    next
      case False
      then show ?thesis by simp
    qed
    with Cons.IH[OF s] p show ?thesis by simp
  qed
qed

lemma stripBOM_last:
  "pre = [] \<or> isLineTerminator (last pre) \<Longrightarrow>
   stripBOM pre = [] \<or> isLineTerminator (last (stripBOM pre))"
  by (cases pre) (auto simp: isLineTerminator_def)

lemma normalizeLines_last:
  assumes "p = [] \<or> isLineTerminator (last p)"
  shows "crToLf (crlfToLf p) = [] \<or> \<not> isBlank (last (crToLf (crlfToLf p)))"
proof (cases "p = []")
  case True
  then show ?thesis by simp
next
  case False
  with assms have "crlfToLf p \<noteq> [] \<and> isLineTerminator (last (crlfToLf p))"
    by (simp add: crlfToLf_last)
  then have "isLineTerminator (last (crToLf (crlfToLf p)))"
    by (simp add: crToLf_last)
  then show ?thesis using blank_not_terminator by blast
qed

lemma rstrip_subset: "set (rstrip a) \<subseteq> set a"
  unfolding rstrip_def using set_dropWhileD by fastforce

lemma finalNewline_atLineEnd: "atLineEnd s \<Longrightarrow> atLineEnd (finalNewline s)"
  by (cases s) (auto simp: atLineEnd_def isLineTerminator_def)

lemma normalizeBody_atLineEnd: "atLineEnd s \<Longrightarrow> atLineEnd (normalizeBody s)"
  unfolding normalizeBody_def
  by (intro finalNewline_atLineEnd)
     (simp add: atLineEnd_trimLines atLineEnd_dropWhile_blank crToLf_atLineEnd crlfToLf_atLineEnd)

lemma normalizeBody_nonempty: "normalizeBody s \<noteq> []"
proof -
  have "finalNewline t \<noteq> []" for t by (cases t) auto
  then show ?thesis by (simp add: normalizeBody_def)
qed

lemma normalizeBody_around_line:
  assumes p: "p = [] \<or> isLineTerminator (last p)"
    and l: "\<forall>c \<in> set l. \<not> isLineTerminator c" "rstrip l \<noteq> []"
    and r: "atLineEnd r"
  shows "normalizeBody (p @ l @ r) = normalizeLines p @ rstrip l @ normalizeBody r"
proof -
  from l(2) have ne: "l \<noteq> []" by (auto simp: rstrip_def)
  from l(1) have cr: "CR \<notin> set l" and lf: "LF \<notin> set l"
    by (auto simp: isLineTerminator_def)
  from ne lf have hd: "hd (l @ r) \<noteq> LF" by (cases l) auto
  have 1: "crlfToLf (p @ l @ r) = crlfToLf p @ l @ crlfToLf r"
  proof -
    have "crlfToLf (p @ l @ r) = crlfToLf p @ crlfToLf (l @ r)"
      using hd by (intro crlfToLf_append) simp
    also have "crlfToLf (l @ r) = l @ crlfToLf r"
      using cr by (rule crlfToLf_prefix)
    finally show ?thesis .
  qed
  have 2: "crToLf (crlfToLf p @ l @ crlfToLf r) = crToLf (crlfToLf p) @ l @ crToLf (crlfToLf r)"
    using cr by (simp add: crToLf_append crToLf_id)
  have e: "atLineEnd (crToLf (crlfToLf r))"
    using r by (simp add: crToLf_atLineEnd crlfToLf_atLineEnd)
  have 3: "trimLines (crToLf (crlfToLf p) @ l @ crToLf (crlfToLf r)) =
           trimLines (crToLf (crlfToLf p)) @ rstrip l @ trimLines (crToLf (crlfToLf r))"
  proof -
    have "trimLines (crToLf (crlfToLf p) @ l @ crToLf (crlfToLf r)) =
          trimLines (crToLf (crlfToLf p)) @ trimLines (l @ crToLf (crlfToLf r))"
      by (rule trimLines_append) (rule normalizeLines_last[OF p])
    also have "trimLines (l @ crToLf (crlfToLf r)) = rstrip l @ trimLines (crToLf (crlfToLf r))"
      using e l(1) by (rule trimLines_line)
    finally show ?thesis .
  qed
  have nlf: "LF \<notin> set (rstrip l)"
    using lf rstrip_subset by blast
  have 4: "finalNewline (trimLines (crToLf (crlfToLf p)) @ rstrip l @ trimLines (crToLf (crlfToLf r))) =
           trimLines (crToLf (crlfToLf p)) @ rstrip l @ finalNewline (trimLines (crToLf (crlfToLf r)))"
  proof -
    from nlf l(2) have "\<not> list_all (\<lambda>d. d = LF) (rstrip l @ trimLines (crToLf (crlfToLf r)))"
      by (cases "rstrip l") auto
    then have "finalNewline (trimLines (crToLf (crlfToLf p)) @ rstrip l @ trimLines (crToLf (crlfToLf r))) =
          trimLines (crToLf (crlfToLf p)) @ finalNewline (rstrip l @ trimLines (crToLf (crlfToLf r)))"
      by (rule finalNewline_append)
    also have "finalNewline (rstrip l @ trimLines (crToLf (crlfToLf r))) =
               rstrip l @ finalNewline (trimLines (crToLf (crlfToLf r)))"
      using nlf by (rule finalNewline_prefix)
    finally show ?thesis .
  qed
  show ?thesis
    unfolding normalizeBody_def normalizeLines_def 1 2 3 4 ..
qed

lemma pragma_line:
  "\<forall>c \<in> set (js ''SET UTF-8''). \<not> isLineTerminator c"
  "rstrip (js ''SET UTF-8'') = js ''SET UTF-8''"
  "\<forall>c \<in> set (js ''SET ISO8859-1''). \<not> isLineTerminator c"
  "rstrip (js ''SET ISO8859-1'') = js ''SET ISO8859-1''"
  by (simp_all add: js_def rstrip_def isBlank_def isLineTerminator_def)

lemma normalizeContent_around_line:
  assumes "pre = [] \<or> isLineTerminator (last pre)"
    and "\<forall>c \<in> set l. \<not> isLineTerminator c" "rstrip l = l" "l \<noteq> []"
    and "atLineEnd rest" and "\<not> startsWithBOM l"
  shows "normalizeContent (pre @ l @ rest) =
         normalizeLines (stripBOM pre) @ l @ normalizeBody rest"
proof -
  from assms(4,6) have "\<not> startsWithBOM (l @ rest)"
    by (cases l) auto
  then have "stripBOM (pre @ l @ rest) = stripBOM pre @ l @ rest"
    by (intro stripBOM_append) simp
  then have "normalizeContent (pre @ l @ rest) = normalizeBody (stripBOM pre @ l @ rest)"
    by (simp add: normalizeContent_body)
  also have "\<dots> = normalizeLines (stripBOM pre) @ rstrip l @ normalizeBody rest"
    using assms(1,2,3,4,5) by (intro normalizeBody_around_line stripBOM_last) simp_all
  finally show ?thesis using assms(3) by simp
qed

text \<open>
  The search finds the line that the text shows: a line that begins with \<^verbatim>\<open>SET\<close> and a
  space, behind a text in which no line begins so.
\<close>

lemma lineStart_Cons: "lineStart bol (c # a) = lineStart (isLineTerminator c) a"
  by (simp add: lineStart_def)

lemma line_and_rest:
  assumes "\<forall>c \<in> set v. \<not> isLineTerminator c" and "atLineEnd rest"
  shows "takeWhile (\<lambda>c. \<not> isLineTerminator c) (v @ rest) = v \<and>
         dropWhile (\<lambda>c. \<not> isLineTerminator c) (v @ rest) = rest"
  using assms by (induction v) (auto simp: atLineEnd_def split: list.splits)

lemma matchSetAt_line:
  assumes "\<forall>c \<in> set v. \<not> isLineTerminator c" and "atLineEnd rest"
  shows "matchSetAt (js ''SET '' @ v @ rest) = Some (js ''SET '' @ v, rest)"
  using line_and_rest[OF assms] by (simp add: matchSetAt_def js_def)

lemma no_match_across_line_end:
  assumes last: "isLineTerminator (last (c # p))"
    and first: "\<forall>a b. c # p = a @ js ''SET '' @ b \<longrightarrow> \<not> lineStart True a"
  shows "matchSetAt (c # p @ s) = None"
proof -
  have "take 4 (c # p @ s) \<noteq> js ''SET ''"
  proof
    assume t: "take 4 (c # p @ s) = js ''SET ''"
    show False
    proof (cases "4 \<le> length (c # p)")
      case True
      then have "take 4 ((c # p) @ s) = take 4 (c # p)" by simp
      with t have t': "take 4 (c # p) = js ''SET ''" by simp
      have "js ''SET '' @ drop 4 (c # p) = c # p"
        using append_take_drop_id[of 4 "c # p"] unfolding t' .
      then have "c # p = [] @ js ''SET '' @ drop 4 (c # p)" by simp
      with first have "\<not> lineStart True []" by blast
      then show False by (simp add: lineStart_def)
    next
      case False
      then have "take 4 ((c # p) @ s) = (c # p) @ take (4 - length (c # p)) s" by simp
      with t have "(c # p) @ take (4 - length (c # p)) s = js ''SET ''" by simp
      then have "set (c # p) \<subseteq> set (js ''SET '')"
        by (metis set_append Un_upper1)
      moreover have "last (c # p) \<in> set (c # p)" by (rule last_in_set) simp
      ultimately have "last (c # p) \<in> set (js ''SET '')" by blast
      then have "\<not> isLineTerminator (last (c # p))"
        by (auto simp: js_def isLineTerminator_def)
      with last show False by simp
    qed
  qed
  then show ?thesis by (simp add: matchSetAt_def)
qed

lemma searchSet_complete:
  assumes v: "\<forall>c \<in> set v. \<not> isLineTerminator c" and r: "atLineEnd rest"
  shows "lineStart bol pre \<Longrightarrow>
         \<forall>a b. pre = a @ js ''SET '' @ b \<longrightarrow> \<not> lineStart bol a \<Longrightarrow>
         searchSet bol (pre @ js ''SET '' @ v @ rest) = Some (pre, js ''SET '' @ v, rest)"
proof (induction pre arbitrary: bol)
  case Nil
  then have bol: bol by (simp add: lineStart_def)
  obtain c cs where eq: "js ''SET '' @ v @ rest = c # cs"
    by (cases "js ''SET '' @ v @ rest") (simp_all add: js_def)
  have "matchSetAt (c # cs) = Some (js ''SET '' @ v, rest)"
    using matchSetAt_line[OF v r] unfolding eq .
  with bol have "searchSet bol (c # cs) = Some ([], js ''SET '' @ v, rest)" by simp
  then show ?case unfolding eq[symmetric] by simp
next
  case (Cons c p)
  let ?s = "js ''SET '' @ v @ rest"
  have no: "(if bol then matchSetAt (c # p @ ?s) else None) = None"
  proof (cases bol)
    case False
    then show ?thesis by simp
  next
    case True
    from Cons.prems(1) have l: "isLineTerminator (last (c # p))"
      by (simp add: lineStart_def)
    from Cons.prems(2) True
    have f: "\<forall>a b. c # p = a @ js ''SET '' @ b \<longrightarrow> \<not> lineStart True a" by simp
    from no_match_across_line_end[OF l f] show ?thesis by simp
  qed
  have 1: "lineStart (isLineTerminator c) p"
    using Cons.prems(1) by (simp add: lineStart_Cons)
  have 2: "\<forall>a b. p = a @ js ''SET '' @ b \<longrightarrow> \<not> lineStart (isLineTerminator c) a"
  proof (intro allI impI)
    fix a b
    assume "p = a @ js ''SET '' @ b"
    then have "c # p = (c # a) @ js ''SET '' @ b" by simp
    with Cons.prems(2) have "\<not> lineStart bol (c # a)" by blast
    then show "\<not> lineStart (isLineTerminator c) a" by (simp add: lineStart_Cons)
  qed
  from Cons.IH[OF 1 2] have "searchSet (isLineTerminator c) (p @ ?s) = Some (p, js ''SET '' @ v, rest)" .
  with no show ?case by simp
qed

lemma searchSet_None:
  "searchSet bol s = None \<Longrightarrow> s = a @ js ''SET '' @ b \<Longrightarrow> \<not> lineStart bol a"
proof (induction s arbitrary: bol a)
  case Nil
  then show ?case by (simp add: js_def)
next
  case (Cons c cs)
  show ?case
  proof (cases a)
    case Nil
    with Cons.prems(2) have "take 4 (c # cs) = js ''SET ''" by (simp add: js_def)
    then have "matchSetAt (c # cs) \<noteq> None" by (simp add: matchSetAt_def)
    with Cons.prems(1) have "\<not> bol" by (auto split: option.splits)
    with Nil show ?thesis by (simp add: lineStart_def)
  next
    case a: (Cons x a')
    with Cons.prems(2) have cs: "cs = a' @ js ''SET '' @ b" and x: "x = c" by simp_all
    from Cons.prems(1) have "searchSet (isLineTerminator c) cs = None"
      by (auto split: option.splits if_splits)
    from Cons.IH[OF this cs] have "\<not> lineStart (isLineTerminator c) a'" .
    with a x show ?thesis by (simp add: lineStart_Cons)
  qed
qed


subsection \<open>From the fetched text to the file\<close>

lemma processDictionary_persists_aff:
  assumes "affFetched e d w content"
  shows "files (snd (processDictionary e d w)) (destDir d @ [''index.aff'']) =
         Some (affContent content)"
proof -
  from assms obtain r1 c1 r2 where
    fresh: "\<not> present d w" and mk: "mkdirFault e (destDir d) = None"
    and w1: "writeFault e (destDir d @ [''index.dic'']) = None"
    and w2: "writeFault e (destDir d @ [''index.aff'']) = None"
    and dic: "net e (dicUrl d) = Inr r1" "ok r1" "text_of r1 = Inr c1"
    and aff: "net e (affUrl d) = Inr r2" "ok r2" "text_of r2 = Inr content"
    by (auto simp: affFetched_def split: sum.splits)
  let ?v = "snd (downloadAff e d (snd (downloadDic e d (snd (mkdir e (destDir d)
      (consoleLog (LogProcessing (code d) (name d))
        (snd (existsSync (destDir d @ [''index.dic'']) w))))))))"
  have run: "processDictionary e d w = writeStamps e d ?v"
    using fresh mk
    by (simp add: processDictionary_def acquireArtifacts_def
        downloadDic_ok[OF dic w1] downloadAff_ok[OF aff w2]
        existsSync_def mkdir_def consoleLog_def emit_def present_def pathJoin_file)
  have "files ?v (destDir d @ [''index.aff'']) = Some (affContent content)"
    by (simp add: downloadAff_ok[OF aff w2])
  with run show ?thesis
    by (simp add: writeStamps_frame)
qed

lemma downloadAff_writes:
  assumes "affFetched e d w content"
  shows "downloadAff e d v =
    (Inr (), v\<lparr>files := (files v)(destDir d @ [''index.aff''] \<mapsto> affContent content),
               trace := trace v @ [Fetch (affUrl d),
                  WriteFile (destDir d @ [''index.aff'']) (affContent content),
                  ConsoleLog (LogWritten ''index.aff'')]\<rparr>)"
proof -
  from assms obtain r2 where
    "writeFault e (destDir d @ [''index.aff'']) = None"
    "net e (affUrl d) = Inr r2" "ok r2" "text_of r2 = Inr content"
    by (auto simp: affFetched_def split: sum.splits)
  then show ?thesis by (simp add: downloadAff_ok)
qed

text \<open>
  C3: in a run that reaches the write of \<^verbatim>\<open>index.aff\<close>, when the fetched affix text is
  some lines of which none begins with \<^verbatim>\<open>SET\<close> and a space (no occurrence of it in the
  text before stands at the start of a line), then the line \<^verbatim>\<open>SET ISO8859-1\<close>, then
  the end of that line and the rest, the rewrite replaces exactly this line by
  \<^verbatim>\<open>SET UTF-8\<close>, and the file \<^verbatim>\<open>index.aff\<close> that \<^verbatim>\<open>processDictionary\<close> leaves is
  the normalization of the text with that one line replaced: the lines before it
  normalized, the line \<^verbatim>\<open>SET UTF-8\<close>, and the lines behind it normalized (a later
  pragma included). The normalization of the fetched text itself has the same lines
  around \<^verbatim>\<open>SET ISO8859-1\<close>: the two differ in this one line only.
\<close>

theorem set_pragma_rewritten:
  assumes content: "content = pre @ js ''SET ISO8859-1'' @ rest"
    and pre: "lineStart True pre"
    and first: "\<forall>a b. pre = a @ js ''SET '' @ b \<longrightarrow> \<not> lineStart True a"
    and rest: "atLineEnd rest"
    and run: "affFetched e dict w content"
  shows "replaceSet content = pre @ js ''SET UTF-8'' @ rest \<and>
         affContent content = normalizeContent (pre @ js ''SET UTF-8'' @ rest) \<and>
         affContent content =
           normalizeLines (stripBOM pre) @ js ''SET UTF-8'' @ normalizeBody rest \<and>
         normalizeContent content =
           normalizeLines (stripBOM pre) @ js ''SET ISO8859-1'' @ normalizeBody rest \<and>
         downloadAff e dict v =
           (Inr (), v\<lparr>files := (files v)(destDir dict @ [''index.aff''] \<mapsto>
                        normalizeLines (stripBOM pre) @ js ''SET UTF-8'' @ normalizeBody rest),
                      trace := trace v @ [Fetch (affUrl dict),
                        WriteFile (destDir dict @ [''index.aff''])
                          (normalizeLines (stripBOM pre) @ js ''SET UTF-8'' @ normalizeBody rest),
                        ConsoleLog (LogWritten ''index.aff'')]\<rparr>) \<and>
         files (snd (processDictionary e dict w)) (destDir dict @ [''index.aff'']) =
           Some (normalizeLines (stripBOM pre) @ js ''SET UTF-8'' @ normalizeBody rest)"
proof -
  have v: "\<forall>c \<in> set (js ''ISO8859-1''). \<not> isLineTerminator c"
    by (simp add: js_def isLineTerminator_def)
  have sp: "js ''SET ISO8859-1'' = js ''SET '' @ js ''ISO8859-1''"
    by (simp add: js_def)
  from pre have pre': "pre = [] \<or> isLineTerminator (last pre)"
    by (auto simp: lineStart_def split: if_splits)
  have s: "searchSet True content = Some (pre, js ''SET ISO8859-1'', rest)"
    using searchSet_complete[OF v rest pre first] by (simp add: content sp)
  have r: "replaceSet content = pre @ js ''SET UTF-8'' @ rest"
    using s by (simp add: replaceSet_def replaceSetFrom_def)
  then have a: "affContent content = normalizeContent (pre @ js ''SET UTF-8'' @ rest)"
    by (simp add: affContent_def)
  have n1: "normalizeContent (pre @ js ''SET UTF-8'' @ rest) =
      normalizeLines (stripBOM pre) @ js ''SET UTF-8'' @ normalizeBody rest"
    using pre' pragma_line(1,2) rest by (intro normalizeContent_around_line) (simp_all add: js_def)
  have n2: "normalizeContent (pre @ js ''SET ISO8859-1'' @ rest) =
      normalizeLines (stripBOM pre) @ js ''SET ISO8859-1'' @ normalizeBody rest"
    using pre' pragma_line(3,4) rest by (intro normalizeContent_around_line) (simp_all add: js_def)
  from a n1 have a2: "affContent content =
      normalizeLines (stripBOM pre) @ js ''SET UTF-8'' @ normalizeBody rest" by simp
  from r a a2 n2 content downloadAff_writes[OF run, of v] processDictionary_persists_aff[OF run]
  show ?thesis by simp
qed

theorem set_pragma_rewritten_witness:
  "affFetched
     (servingEnv (js ''# affix'' @ [LF] @ js ''SET ISO8859-1'' @ [CR, LF] @ js ''SET KOI8-R '' @ [LF]))
     (exampleDescriptor ''xx'') emptyWorld
     (js ''# affix'' @ [LF] @ js ''SET ISO8859-1'' @ [CR, LF] @ js ''SET KOI8-R '' @ [LF]) \<and>
   files (snd (processDictionary
     (servingEnv (js ''# affix'' @ [LF] @ js ''SET ISO8859-1'' @ [CR, LF] @ js ''SET KOI8-R '' @ [LF]))
     (exampleDescriptor ''xx'') emptyWorld)) [''dictionaries'', ''xx'', ''index.aff''] =
     Some (js ''# affix'' @ [LF] @ js ''SET UTF-8'' @ [LF] @ js ''SET KOI8-R'' @ [LF])"
proof -
  let ?pre = "js ''# affix'' @ [LF]"
  let ?rest = "[CR, LF] @ js ''SET KOI8-R '' @ [LF]"
  let ?content = "js ''# affix'' @ [LF] @ js ''SET ISO8859-1'' @ [CR, LF] @ js ''SET KOI8-R '' @ [LF]"
  have c: "?content = ?pre @ js ''SET ISO8859-1'' @ ?rest" by simp
  have p: "lineStart True ?pre"
    by (simp add: lineStart_def isLineTerminator_def)
  have none: "searchSet True ?pre = None"
    by (simp add: js_def matchSetAt_def isLineTerminator_def)
  have f: "\<forall>a b. ?pre = a @ js ''SET '' @ b \<longrightarrow> \<not> lineStart True a"
    using searchSet_None[OF none] by blast
  have r: "atLineEnd ?rest" by (simp add: atLineEnd_def isLineTerminator_def)
  have run: "affFetched (servingEnv ?content) (exampleDescriptor ''xx'') emptyWorld ?content"
    by (simp add: affFetched_def servingEnv_def present_def emptyWorld_def ok_def)
  from set_pragma_rewritten[OF c p f r run] run show ?thesis
    by (simp add: destDir_def pathJoin_def DICTIONARIES_DIR_def exampleDescriptor_def
        normalizeLines_def normalizeBody_def js_def isBlank_def atLineEnd_def isLineTerminator_def)
qed

subsection \<open>A pragma behind the mark\<close>

lemma normalizeBody_first_line:
  assumes a: "\<forall>c \<in> set a. \<not> isLineTerminator c" and r: "atLineEnd r"
  shows "normalizeBody (a @ r) = rstrip a @ normalizeBody r"
proof -
  from a have cr: "CR \<notin> set a" and lf: "LF \<notin> set a"
    by (auto simp: isLineTerminator_def)
  have "crToLf (crlfToLf (a @ r)) = a @ crToLf (crlfToLf r)"
    using cr by (simp add: crlfToLf_prefix crToLf_append crToLf_id)
  moreover have "atLineEnd (crToLf (crlfToLf r))"
    using r by (simp add: crToLf_atLineEnd crlfToLf_atLineEnd)
  then have "trimLines (a @ crToLf (crlfToLf r)) = rstrip a @ trimLines (crToLf (crlfToLf r))"
    using a by (rule trimLines_line)
  moreover have "LF \<notin> set (rstrip a)"
    using lf rstrip_subset by blast
  then have "finalNewline (rstrip a @ trimLines (crToLf (crlfToLf r))) =
             rstrip a @ finalNewline (trimLines (crToLf (crlfToLf r)))"
    by (rule finalNewline_prefix)
  ultimately show ?thesis by (simp add: normalizeBody_def)
qed

text \<open>
  C10: the rewrite runs on the fetched text, before the normalizer removes the mark. In a
  run that reaches the write of \<^verbatim>\<open>index.aff\<close>, for every fetched affix text that begins
  with a byte-order mark followed at once by a line \<^verbatim>\<open>SET\<close>, a space and a value, the
  rewrite leaves this line as it is (its first match, if there is one, lies behind the
  line), and the file \<^verbatim>\<open>index.aff\<close> that \<^verbatim>\<open>processDictionary\<close> leaves begins with
  this very line, the declared encoding unchanged, less the blanks at its end; the end of
  the line follows it.
\<close>

theorem pragma_behind_mark_survives:
  assumes "\<forall>c \<in> set v. \<not> isLineTerminator c" and "atLineEnd rest"
    and run: "affFetched e dict w (BOM # js ''SET '' @ v @ rest)"
  shows "replaceSet (BOM # js ''SET '' @ v @ rest) =
           BOM # js ''SET '' @ v @ replaceSetFrom False rest \<and>
         affContent (BOM # js ''SET '' @ v @ rest) =
           rstrip (js ''SET '' @ v) @ normalizeBody (replaceSetFrom False rest) \<and>
         normalizeBody (replaceSetFrom False rest) \<noteq> [] \<and>
         atLineEnd (normalizeBody (replaceSetFrom False rest)) \<and>
         downloadAff e dict u =
           (Inr (), u\<lparr>files := (files u)(destDir dict @ [''index.aff''] \<mapsto>
                        rstrip (js ''SET '' @ v) @ normalizeBody (replaceSetFrom False rest)),
                      trace := trace u @ [Fetch (affUrl dict),
                        WriteFile (destDir dict @ [''index.aff''])
                          (rstrip (js ''SET '' @ v) @ normalizeBody (replaceSetFrom False rest)),
                        ConsoleLog (LogWritten ''index.aff'')]\<rparr>) \<and>
         files (snd (processDictionary e dict w)) (destDir dict @ [''index.aff'']) =
           Some (rstrip (js ''SET '' @ v) @ normalizeBody (replaceSetFrom False rest))"
proof -
  let ?a = "js ''SET '' @ v"
  from assms(1) have a: "\<forall>c \<in> set ?a. \<not> isLineTerminator c"
    by (auto simp: js_def isLineTerminator_def)
  have 1: "replaceSet (BOM # ?a @ rest) = BOM # ?a @ replaceSetFrom False rest"
    using replaceSetFrom_skip[OF a, of rest] by (simp add: replaceSet_BOM)
  have e: "atLineEnd (replaceSetFrom False rest)"
    using assms(2) by (rule replaceSetFrom_atLineEnd)
  have "affContent (BOM # ?a @ rest) = normalizeBody (?a @ replaceSetFrom False rest)"
    unfolding affContent_def 1 by (simp add: normalizeContent_body)
  also have "\<dots> = rstrip ?a @ normalizeBody (replaceSetFrom False rest)"
    using a e by (rule normalizeBody_first_line)
  finally have 2: "affContent (BOM # ?a @ rest) =
      rstrip ?a @ normalizeBody (replaceSetFrom False rest)" .
  have 3: "downloadAff e dict u =
      (Inr (), u\<lparr>files := (files u)(destDir dict @ [''index.aff''] \<mapsto>
                   rstrip ?a @ normalizeBody (replaceSetFrom False rest)),
                 trace := trace u @ [Fetch (affUrl dict),
                   WriteFile (destDir dict @ [''index.aff''])
                     (rstrip ?a @ normalizeBody (replaceSetFrom False rest)),
                   ConsoleLog (LogWritten ''index.aff'')]\<rparr>)"
    using downloadAff_writes[OF run, of u] 2 by simp
  have 4: "files (snd (processDictionary e dict w)) (destDir dict @ [''index.aff'']) =
      Some (rstrip ?a @ normalizeBody (replaceSetFrom False rest))"
    using processDictionary_persists_aff[OF run] 2 by simp
  from 1 2 3 4 normalizeBody_nonempty normalizeBody_atLineEnd[OF e] show ?thesis
    by simp
qed

theorem pragma_behind_mark_survives_witness:
  "list_all (\<lambda>c. \<not> isLineTerminator c) (js ''ISO8859-1'') \<and>
   atLineEnd ([CR, LF] @ js ''SET KOI8-R'' @ [LF]) \<and>
   affFetched
     (servingEnv (BOM # js ''SET '' @ js ''ISO8859-1'' @ [CR, LF] @ js ''SET KOI8-R'' @ [LF]))
     (exampleDescriptor ''xx'') emptyWorld
     (BOM # js ''SET '' @ js ''ISO8859-1'' @ [CR, LF] @ js ''SET KOI8-R'' @ [LF]) \<and>
   files (snd (processDictionary
     (servingEnv (BOM # js ''SET '' @ js ''ISO8859-1'' @ [CR, LF] @ js ''SET KOI8-R'' @ [LF]))
     (exampleDescriptor ''xx'') emptyWorld)) [''dictionaries'', ''xx'', ''index.aff''] =
     Some (js ''SET ISO8859-1'' @ [LF] @ js ''SET UTF-8'' @ [LF])"
proof -
  let ?content = "BOM # js ''SET '' @ js ''ISO8859-1'' @ [CR, LF] @ js ''SET KOI8-R'' @ [LF]"
  have v: "\<forall>c \<in> set (js ''ISO8859-1''). \<not> isLineTerminator c"
    by (simp add: js_def isLineTerminator_def)
  have r: "atLineEnd ([CR, LF] @ js ''SET KOI8-R'' @ [LF])"
    by (simp add: atLineEnd_def isLineTerminator_def)
  have run: "affFetched (servingEnv ?content) (exampleDescriptor ''xx'') emptyWorld ?content"
    by (simp add: affFetched_def servingEnv_def present_def emptyWorld_def ok_def)
  from pragma_behind_mark_survives[OF v r run] v r run show ?thesis
    by (simp add: destDir_def pathJoin_def DICTIONARIES_DIR_def exampleDescriptor_def
        text_defs normalizeBody_def rstrip_def list_all_iff)
qed

end
